theory Spec2Isabelle
  imports Main "HOL-Library.Word"
begin

section \<open>Convolution as matrix multiplication: the notebook \<open>Convolutions.ipynb\<close>\<close>

text \<open>
  The notebook computes a discrete convolution twice: once by the double sum of its
  definition (the function \<open>cnv\<close>, plain Python over dictionaries), and once as a single
  matrix product of an unfolded feature matrix \<open>Xhat\<close>, gathered from the input by
  integer index arrays, with a flattened filter \<open>W\<close> (numpy). This theory embeds both.

  Errors are values: \<open>KeyError\<close> is Python's (a dictionary read of a missing key),
  \<open>IndexError\<close> and \<open>ValueError\<close> are numpy's (an index out of bounds; shapes that do
  not fit). \<open>InvalidShape\<close> is the error the specification names; no operation of the
  notebook raises it, and it is the error of the shape check of the specification alone.
\<close>

datatype error = KeyError | IndexError | ValueError | InvalidShape

subsection \<open>The double sum: \<open>cnv\<close>\<close>

text \<open>
  \<^verbatim>\<open>
  def cnv(f, g):
      def conv_func(n):
          M = int(len(g)/2)
          res = 0
          for m in range(-M, M+1, 1):
              res += f[n - m] * g[m]
          return res
      return conv_func
  \<close>
  A dictionary is an association list with distinct keys, so that \<open>len\<close> is its length;
  Python's integers are unbounded, hence \<open>int\<close>.
\<close>

type_synonym dict = "(int \<times> int) list"

definition getitem :: "dict \<Rightarrow> int \<Rightarrow> error + int" where
  "getitem d k = (case map_of d k of None \<Rightarrow> Inl KeyError | Some v \<Rightarrow> Inr v)"

fun conv_loop :: "dict \<Rightarrow> dict \<Rightarrow> int \<Rightarrow> int list \<Rightarrow> int \<Rightarrow> error + int" where
  "conv_loop f g n [] res = Inr res"
| "conv_loop f g n (m # ms) res =
     (case getitem f (n - m) of
        Inl e \<Rightarrow> Inl e
      | Inr a \<Rightarrow> (case getitem g m of
                   Inl e \<Rightarrow> Inl e
                 | Inr b \<Rightarrow> conv_loop f g n ms (res + a * b)))"

definition cnv :: "dict \<Rightarrow> dict \<Rightarrow> int \<Rightarrow> error + int" where
  "cnv f g n = (let M = int (length g) div 2 in conv_loop f g n [- M..M] 0)"

subsection \<open>numpy arrays\<close>

text \<open>
  An array is its shape and its elements in row-major (C) order, as numpy stores a
  freshly built array. The element type is left open: the operations below are numpy's
  for every element type with a sum and a product, and every law that is stated for a
  commutative semiring holds for machine words as it does for \<open>int\<close>. The arrays of the
  notebook hold integers, which numpy stores as \<open>int64\<close>; their literals are written
  below with their values as \<open>int\<close>, and \<open>as_int64\<close> brings them to \<open>int64\<close> wherever a
  property compares the sums of \<open>np.dot\<close> with those of Python's unbounded integers.
\<close>

record 'a ndarray =
  shape :: "nat list"
  data :: "'a list"

definition wf_array :: "'a ndarray \<Rightarrow> bool" where
  "wf_array A \<longleftrightarrow> length (data A) = prod_list (shape A)"

text \<open>\<open>np.array\<close> of a nested literal of depth one, two and three.\<close>

definition array1 :: "'a list \<Rightarrow> 'a ndarray" where
  "array1 xs = \<lparr>shape = [length xs], data = xs\<rparr>"

definition array2 :: "'a list list \<Rightarrow> 'a ndarray" where
  "array2 xss =
     \<lparr>shape = [length xss, (case xss of [] \<Rightarrow> 0 | xs # _ \<Rightarrow> length xs)],
      data = concat xss\<rparr>"

definition array3 :: "'a list list list \<Rightarrow> 'a ndarray" where
  "array3 xsss =
     \<lparr>shape = [length xsss,
               (case xsss of [] \<Rightarrow> 0 | xss # _ \<Rightarrow> length xss),
               (case xsss of [] \<Rightarrow> 0 | xss # _ \<Rightarrow> (case xss of [] \<Rightarrow> 0 | xs # _ \<Rightarrow> length xs))],
      data = concat (concat xsss)\<rparr>"

text \<open>Row-major offset of a multi-index, and the multi-index of an offset.\<close>

fun ravel :: "nat list \<Rightarrow> nat list \<Rightarrow> nat" where
  "ravel (n # ns) (i # is) = i * prod_list ns + ravel ns is"
| "ravel _ _ = 0"

fun unravel :: "nat list \<Rightarrow> nat \<Rightarrow> nat list" where
  "unravel [] i = []"
| "unravel (n # ns) i = i div prod_list ns # unravel ns (i mod prod_list ns)"

text \<open>\<open>np.transpose(A)\<close>: the axes in reverse order.\<close>

definition np_transpose :: "'a ndarray \<Rightarrow> 'a ndarray" where
  "np_transpose A =
     \<lparr>shape = rev (shape A),
      data = map (\<lambda>i. data A ! ravel (shape A) (rev (unravel (rev (shape A)) i)))
               [0..<prod_list (shape A)]\<rparr>"

text \<open>
  \<open>A.reshape(sh)\<close>: the same elements under another shape of the same size, and
  \<open>ValueError\<close> for a shape of another size. \<open>np.squeeze(A)\<close> drops the axes of length one.
\<close>

definition reshape :: "'a ndarray \<Rightarrow> nat list \<Rightarrow> error + 'a ndarray" where
  "reshape A sh =
     (if prod_list sh = length (data A) then Inr \<lparr>shape = sh, data = data A\<rparr>
      else Inl ValueError)"

definition squeeze :: "'a ndarray \<Rightarrow> 'a ndarray" where
  "squeeze A = \<lparr>shape = filter (\<lambda>n. n \<noteq> 1) (shape A), data = data A\<rparr>"

text \<open>
  One index into an axis of length \<open>n\<close>: numpy counts a negative index from the end and
  raises \<open>IndexError\<close> outside \<open>-n \<le> i < n\<close>.
\<close>

definition np_index :: "nat \<Rightarrow> int \<Rightarrow> nat option" where
  "np_index n i =
     (if 0 \<le> i \<and> i < int n then Some (nat i)
      else if - int n \<le> i \<and> i < 0 then Some (nat (i + int n))
      else None)"

fun ravel_index :: "nat \<Rightarrow> nat list \<Rightarrow> int list \<Rightarrow> nat option" where
  "ravel_index acc [] [] = Some acc"
| "ravel_index acc (n # ns) (i # is) =
     (case np_index n i of
        None \<Rightarrow> None
      | Some j \<Rightarrow> ravel_index (acc * n + j) ns is)"
| "ravel_index acc _ _ = None"

text \<open>
  Fancy indexing \<open>X[I\<^sub>1, ..., I\<^sub>m]\<close> with integer index arrays of one common shape \<open>S\<close>
  (as everywhere in the notebook; numpy's broadcasting of index arrays of different
  shapes is not modelled and counts as the failure it is for shapes that do not
  broadcast): the result has shape \<open>S\<close> followed by the axes of \<open>X\<close> that were not
  indexed, and at position \<open>s\<close> holds \<open>X[I\<^sub>1[s], ..., I\<^sub>m[s]]\<close>.
\<close>

definition fancy :: "'a ndarray \<Rightarrow> int ndarray list \<Rightarrow> error + 'a ndarray" where
  "fancy X idxs =
     (if idxs = [] \<or> length (shape X) < length idxs
         \<or> list_ex (\<lambda>I. shape I \<noteq> shape (hd idxs)) idxs
      then Inl IndexError
      else
        let m = length idxs;
            r = prod_list (drop m (shape X));
            offs = map (\<lambda>s. ravel_index 0 (take m (shape X)) (map (\<lambda>I. data I ! s) idxs))
                     [0..<prod_list (shape (hd idxs))]
        in case those offs of
             None \<Rightarrow> Inl IndexError
           | Some os \<Rightarrow>
               Inr \<lparr>shape = shape (hd idxs) @ drop m (shape X),
                    data = concat (map (\<lambda>off. take r (drop (off * r) (data X))) os)\<rparr>)"

text \<open>
  \<open>np.dot(A, B)\<close>: a product with a scalar when either side has no axis; otherwise the
  sum of products over the last axis of \<open>A\<close> and the last axis of a one-dimensional
  \<open>B\<close>, or the last but one axis of a \<open>B\<close> of more dimensions; \<open>ValueError\<close> when the two
  axes differ in length.
\<close>

definition np_dot :: "'a::comm_semiring_0 ndarray \<Rightarrow> 'a ndarray \<Rightarrow> error + 'a ndarray" where
  "np_dot A B =
     (if shape A = [] \<or> shape B = [] then
        Inr \<lparr>shape = shape A @ shape B,
             data = concat (map (\<lambda>a. map (\<lambda>b. a * b) (data B)) (data A))\<rparr>
      else
        let k = last (shape A); pa = prod_list (butlast (shape A)) in
        if length (shape B) = 1 then
          (if hd (shape B) \<noteq> k then Inl ValueError
           else Inr \<lparr>shape = butlast (shape A),
                     data = map (\<lambda>p. \<Sum>c\<leftarrow>[0..<k]. data A ! (p * k + c) * data B ! c)
                              [0..<pa]\<rparr>)
        else
          let sb = butlast (butlast (shape B));
              k' = last (butlast (shape B));
              nf = last (shape B);
              pb = prod_list sb
          in if k' \<noteq> k then Inl ValueError
             else Inr \<lparr>shape = butlast (shape A) @ sb @ [nf],
                       data = map (\<lambda>i. \<Sum>c\<leftarrow>[0..<k].
                                         data A ! ((i div (pb * nf)) * k + c)
                                         * data B ! ((((i div nf) mod pb) * k + c) * nf + i mod nf))
                                [0..<pa * pb * nf]\<rparr>)"


subsection \<open>The integers of numpy\<close>

text \<open>
  \<open>np.array\<close> of a list of Python integers has the element type \<open>int64\<close>: words of 64
  bits read in two's complement (\<open>sint\<close>), whose sums and products wrap around, as those
  of \<open>np.dot\<close> do. \<open>int64_ok x\<close> says that the Python integer \<open>x\<close> is a value of this
  type, and \<open>as_int64 A\<close> is the array of \<open>int64\<close> with the integer values of \<open>A\<close>.
\<close>

type_synonym int64 = "64 word"

definition int64_ok :: "int \<Rightarrow> bool" where
  "int64_ok x \<longleftrightarrow> - (2 ^ 63) \<le> x \<and> x < 2 ^ 63"

definition as_int64 :: "int ndarray \<Rightarrow> int64 ndarray" where
  "as_int64 A = \<lparr>shape = shape A, data = map word_of_int (data A)\<rparr>"

subsection \<open>The index arrays\<close>

text \<open>
  The notebook has its index arrays only as literal tables, one set for each of its four
  examples (\<open>ix\<close>; \<open>ps_ix\<close>, \<open>ft_ix\<close>; \<open>h_ix\<close>, \<open>w_ix\<close>; \<open>h_ix\<close>, \<open>w_ix\<close>, \<open>ft_ix\<close>), and no
  function that builds them. The rule that generates them for every shape is the
  specification's (\<open>build_window_indices\<close>, section 4.1), and the four definitions below
  are modelled from it. The literal tables of the notebook are instances (\<open>table_cell16\<close>,
  \<open>table_cell25\<close>, \<open>table_cell35\<close>, \<open>table_cell44\<close> below).
\<close>

text \<open>
  Modelled from the spec: the notebook has no enumeration of window anchors or of window
  offsets. These are the multi-indices of a shape in row-major order (steps 1 and 2 of
  the algorithm).
\<close>

fun multi_indices :: "nat list \<Rightarrow> nat list list" where
  "multi_indices [] = [[]]"
| "multi_indices (n # ns) = concat (map (\<lambda>i. map ((#) i) (multi_indices ns)) [0..<n])"

text \<open>
  Modelled from the spec: the notebook has the number of window positions only in its
  prose. On every spatial axis there are \<open>n - k + 1\<close> of them; an axis with \<open>k > n\<close> has
  none (\<open>range(n - k + 1)\<close> is empty then).
\<close>

definition positions :: "nat list \<Rightarrow> nat list \<Rightarrow> nat list" where
  "positions ns ks = map2 (\<lambda>n k. n + 1 - k) ns ks"

text \<open>
  Modelled from the spec: the notebook has no function for the coordinates of the window
  elements. The window anchors in row-major order give the rows; in every row the
  spatial offsets in the window in row-major order, and for every offset the channels
  \<open>0..d-1\<close>, give the columns; the coordinate is anchor plus offset on every spatial
  axis, and the channel (steps 1 to 3 of the algorithm).
\<close>

definition window_coords :: "nat list \<Rightarrow> nat list \<Rightarrow> nat \<Rightarrow> nat list list" where
  "window_coords ns ks d =
     concat (map (\<lambda>a. concat (map (\<lambda>off. map (\<lambda>ch. map2 (+) a off @ [ch]) [0..<d])
                                (multi_indices ks)))
               (multi_indices (positions ns ks)))"

text \<open>
  Modelled from the spec: the notebook has no \<open>build_window_indices\<close>. This is the
  algorithm of section 4.1 (steps 1 to 3) on its own: it returns one index array of shape
  \<open>(P, K)\<close> for every axis of the input, the spatial axes first and the channel axis
  last, holding the coordinates of the window elements on that axis. The error contract
  of section 4.1, the shape check that comes before the algorithm, is
  \<open>build_window_indices_checked\<close> below, which returns these arrays for the shapes it
  accepts.
\<close>

definition build_window_indices :: "nat list \<Rightarrow> nat list \<Rightarrow> nat \<Rightarrow> int ndarray list" where
  "build_window_indices ns ks d =
     map (\<lambda>t. \<lparr>shape = [prod_list (positions ns ks), prod_list ks * d],
               data = map (\<lambda>c. int (c ! t)) (window_coords ns ks d)\<rparr>)
       [0..<length ns + 1]"

subsection \<open>The pipeline\<close>

text \<open>
  The cells of every example of the notebook, in their order: the filter is flattened
  to a column matrix (\<open>W = W.reshape((K, 1))\<close>; the filters of the last example are
  \<open>K \<times> o\<close> from the start), the input is unfolded (\<open>Xhat = X[h_ix, w_ix, ft_ix]\<close>), the
  two are multiplied (\<open>out = np.dot(Xhat, W)\<close>), and with two spatial axes the product
  is brought into spatial shape (\<open>out.reshape((3, 3))\<close>, \<open>out.reshape((3, 3, 2))\<close>). With
  one spatial axis the notebook leaves the product as the column matrix it is
  (\<open>out.shape\<close> is \<open>(5, 1)\<close>).

  The notebook runs these cells on arrays of fixed shapes, with the numbers \<open>K\<close> and the
  output shape written out. Here the shapes are read as the specification's data model
  has them: the input is \<open>(n\<^sub>h, [n\<^sub>w,] d)\<close> with the channel axis last, the filter is
  \<open>(k\<^sub>h, [k\<^sub>w,] d)\<close>, or \<open>(k\<^sub>h, [k\<^sub>w,] d, o)\<close> with an output-filter axis, which it has when
  it has one axis more than the input; \<open>K\<close> is the product of the \<open>k\<^sub>i\<close> and \<open>d\<close>, and the
  index arrays are those of \<open>build_window_indices\<close>. Reading the last axis of an input
  without axes is Python's \<open>IndexError\<close>.
\<close>

definition convolve :: "'a::comm_semiring_0 ndarray \<Rightarrow> 'a ndarray \<Rightarrow> error + 'a ndarray" where
  "convolve X W =
     (if shape X = [] then Inl IndexError
      else
        let ns = butlast (shape X); d = last (shape X); r = length ns;
            ks = take r (shape W);
            batched = (length (shape W) = r + 2);
            nf = (if batched then last (shape W) else 1)
        in case reshape W [prod_list ks * d, nf] of
             Inl e \<Rightarrow> Inl e
           | Inr Wf \<Rightarrow>
              (case fancy X (build_window_indices ns ks d) of
                 Inl e \<Rightarrow> Inl e
               | Inr Xhat \<Rightarrow>
                  (case np_dot Xhat Wf of
                     Inl e \<Rightarrow> Inl e
                   | Inr out \<Rightarrow>
                       if r = 1 then Inr out
                       else reshape out (positions ns ks @ (if batched then [nf] else [])))))"

subsection \<open>The shape check of the specification\<close>




subsection \<open>The arrays of the notebook\<close>

definition f_dict :: dict where
  "f_dict = [(-1, 0), (0, 1), (1, 2), (2, -1), (3, 1), (4, -3), (5, 0)]"

definition g_dict :: dict where
  "g_dict = [(-1, -1), (0, 0), (1, 1)]"

definition X1 :: "int ndarray" where
  "X1 = np_transpose (array2 [[0, 1, 2, -1, 1, -3, 0]])"

definition W1 :: "int ndarray" where
  "W1 = np_transpose (array2 [[1, 0, -1]])"

definition ix :: "int ndarray" where
  "ix = array2 [[0, 1, 2],
                [1, 2, 3],
                [2, 3, 4],
                [3, 4, 5],
                [4, 5, 6]]"

definition X2 :: "int ndarray" where
  "X2 = np_transpose (array2 [[0, 1, 2, -1, 1, -3, 0],
                              [1, 3, -2, 2, 0, 1, -1]])"

definition W2 :: "int ndarray" where
  "W2 = np_transpose (array2 [[1, 0, -1],
                              [-1, 0, 1]])"

definition ps_ix :: "int ndarray" where
  "ps_ix = array2 [[0, 0, 1, 1, 2, 2],
                   [1, 1, 2, 2, 3, 3],
                   [2, 2, 3, 3, 4, 4],
                   [3, 3, 4, 4, 5, 5],
                   [4, 4, 5, 5, 6, 6]]"

definition ft_ix :: "int ndarray" where
  "ft_ix = array2 [[0, 1, 0, 1, 0, 1],
                   [0, 1, 0, 1, 0, 1],
                   [0, 1, 0, 1, 0, 1],
                   [0, 1, 0, 1, 0, 1],
                   [0, 1, 0, 1, 0, 1]]"

text \<open>The random arrays of the later cells, with the values the notebook prints.\<close>

definition X3 :: "int ndarray" where
  "X3 = array2 [[ 0, -3, -2, -1,  0],
                [-3,  2, -3, -3,  1],
                [ 1,  0, -2, -2,  0],
                [ 1, -1,  0, -1, -2],
                [ 0, -3,  0,  1, -2]]"

definition W3 :: "int ndarray" where
  "W3 = array2 [[-2,  2,  2],
                [-2, -3, -1],
                [ 0,  1,  1]]"

definition h_ix :: "int ndarray" where
  "h_ix = array2 [[0, 0, 0, 1, 1, 1, 2, 2, 2],
                  [0, 0, 0, 1, 1, 1, 2, 2, 2],
                  [0, 0, 0, 1, 1, 1, 2, 2, 2],
                  [1, 1, 1, 2, 2, 2, 3, 3, 3],
                  [1, 1, 1, 2, 2, 2, 3, 3, 3],
                  [1, 1, 1, 2, 2, 2, 3, 3, 3],
                  [2, 2, 2, 3, 3, 3, 4, 4, 4],
                  [2, 2, 2, 3, 3, 3, 4, 4, 4],
                  [2, 2, 2, 3, 3, 3, 4, 4, 4]]"

definition w_ix :: "int ndarray" where
  "w_ix = array2 [[0, 1, 2, 0, 1, 2, 0, 1, 2],
                  [1, 2, 3, 1, 2, 3, 1, 2, 3],
                  [2, 3, 4, 2, 3, 4, 2, 3, 4],
                  [0, 1, 2, 0, 1, 2, 0, 1, 2],
                  [1, 2, 3, 1, 2, 3, 1, 2, 3],
                  [2, 3, 4, 2, 3, 4, 2, 3, 4],
                  [0, 1, 2, 0, 1, 2, 0, 1, 2],
                  [1, 2, 3, 1, 2, 3, 1, 2, 3],
                  [2, 3, 4, 2, 3, 4, 2, 3, 4]]"

definition X4 :: "int ndarray" where
  "X4 = array3 [[[-3, -1], [1, -3], [1, 2], [0, -3], [1, 0]],
                [[-2, -3], [2, 1], [-2, -1], [0, 2], [-3, 0]],
                [[-1, 0], [-2, 2], [-2, 2], [0, -1], [-1, 2]],
                [[1, 2], [2, -3], [2, -3], [1, 0], [0, 1]],
                [[-1, -2], [-1, -3], [0, 0], [1, 1], [0, 2]]]"

definition W4 :: "int ndarray" where
  "W4 = array3 [[[-2, -3], [1, 1], [1, 1]],
                [[-1, -1], [1, 0], [0, 0]],
                [[2, 2], [-2, -2], [-3, -1]]]"

text \<open>
  The cell of the last example binds \<open>h_ix\<close>, \<open>w_ix\<close> and \<open>ft_ix\<close> anew; here they are
  \<open>h_ix2\<close>, \<open>w_ix2\<close> and \<open>ft_ix2\<close>.
\<close>

definition h_ix2 :: "int ndarray" where
  "h_ix2 = array2 [[0, 0, 0, 0, 0, 0, 1, 1, 1, 1, 1, 1, 2, 2, 2, 2, 2, 2],
                  [0, 0, 0, 0, 0, 0, 1, 1, 1, 1, 1, 1, 2, 2, 2, 2, 2, 2],
                  [0, 0, 0, 0, 0, 0, 1, 1, 1, 1, 1, 1, 2, 2, 2, 2, 2, 2],
                  [1, 1, 1, 1, 1, 1, 2, 2, 2, 2, 2, 2, 3, 3, 3, 3, 3, 3],
                  [1, 1, 1, 1, 1, 1, 2, 2, 2, 2, 2, 2, 3, 3, 3, 3, 3, 3],
                  [1, 1, 1, 1, 1, 1, 2, 2, 2, 2, 2, 2, 3, 3, 3, 3, 3, 3],
                  [2, 2, 2, 2, 2, 2, 3, 3, 3, 3, 3, 3, 4, 4, 4, 4, 4, 4],
                  [2, 2, 2, 2, 2, 2, 3, 3, 3, 3, 3, 3, 4, 4, 4, 4, 4, 4],
                  [2, 2, 2, 2, 2, 2, 3, 3, 3, 3, 3, 3, 4, 4, 4, 4, 4, 4]]"

definition w_ix2 :: "int ndarray" where
  "w_ix2 = array2 [[0, 0, 1, 1, 2, 2, 0, 0, 1, 1, 2, 2, 0, 0, 1, 1, 2, 2],
                  [1, 1, 2, 2, 3, 3, 1, 1, 2, 2, 3, 3, 1, 1, 2, 2, 3, 3],
                  [2, 2, 3, 3, 4, 4, 2, 2, 3, 3, 4, 4, 2, 2, 3, 3, 4, 4],
                  [0, 0, 1, 1, 2, 2, 0, 0, 1, 1, 2, 2, 0, 0, 1, 1, 2, 2],
                  [1, 1, 2, 2, 3, 3, 1, 1, 2, 2, 3, 3, 1, 1, 2, 2, 3, 3],
                  [2, 2, 3, 3, 4, 4, 2, 2, 3, 3, 4, 4, 2, 2, 3, 3, 4, 4],
                  [0, 0, 1, 1, 2, 2, 0, 0, 1, 1, 2, 2, 0, 0, 1, 1, 2, 2],
                  [1, 1, 2, 2, 3, 3, 1, 1, 2, 2, 3, 3, 1, 1, 2, 2, 3, 3],
                  [2, 2, 3, 3, 4, 4, 2, 2, 3, 3, 4, 4, 2, 2, 3, 3, 4, 4]]"

definition ft_ix2 :: "int ndarray" where
  "ft_ix2 = array2 [[0, 1, 0, 1, 0, 1, 0, 1, 0, 1, 0, 1, 0, 1, 0, 1, 0, 1],
                   [0, 1, 0, 1, 0, 1, 0, 1, 0, 1, 0, 1, 0, 1, 0, 1, 0, 1],
                   [0, 1, 0, 1, 0, 1, 0, 1, 0, 1, 0, 1, 0, 1, 0, 1, 0, 1],
                   [0, 1, 0, 1, 0, 1, 0, 1, 0, 1, 0, 1, 0, 1, 0, 1, 0, 1],
                   [0, 1, 0, 1, 0, 1, 0, 1, 0, 1, 0, 1, 0, 1, 0, 1, 0, 1],
                   [0, 1, 0, 1, 0, 1, 0, 1, 0, 1, 0, 1, 0, 1, 0, 1, 0, 1],
                   [0, 1, 0, 1, 0, 1, 0, 1, 0, 1, 0, 1, 0, 1, 0, 1, 0, 1],
                   [0, 1, 0, 1, 0, 1, 0, 1, 0, 1, 0, 1, 0, 1, 0, 1, 0, 1],
                   [0, 1, 0, 1, 0, 1, 0, 1, 0, 1, 0, 1, 0, 1, 0, 1, 0, 1]]"

definition W5 :: "int ndarray" where
  "W5 = array2 [[-2, 0],
               [1, -1],
               [2, -3],
               [1, -2],
               [-3, 2],
               [-1, -1],
               [0, 0],
               [-2, -1],
               [-3, 1],
               [0, 0],
               [2, -1],
               [1, -3],
               [-3, -3],
               [-2, 1],
               [-2, -3],
               [2, 0],
               [-2, 1],
               [1, 2]]"

subsection \<open>Notions used to state the properties\<close>

text \<open>
  \<open>item A [i\<^sub>1, ..., i\<^sub>n]\<close> is the element \<open>A[i\<^sub>1, ..., i\<^sub>n]\<close> for indices within the shape.
  \<open>column xs\<close> is the \<open>n \<times> 1\<close> matrix the notebook builds as
  \<open>np.transpose(np.array([xs]))\<close>. \<open>dict_from lo xs\<close> is the dictionary with the keys
  \<open>lo, lo + 1, ...\<close> for the elements of \<open>xs\<close>, as \<open>f\<close> and \<open>g\<close> of the notebook are for
  \<open>lo = -1\<close>. \<open>take_channel A c\<close> is \<open>A[..., c:c+1]\<close>, one channel of an array whose
  last axis is the channel axis.
\<close>

definition item :: "'a ndarray \<Rightarrow> nat list \<Rightarrow> 'a" where
  "item A idx = data A ! ravel (shape A) idx"

definition column :: "'a list \<Rightarrow> 'a ndarray" where
  "column xs = np_transpose (array2 [xs])"

definition dict_from :: "int \<Rightarrow> int list \<Rightarrow> dict" where
  "dict_from lo xs = zip (map (\<lambda>i. lo + int i) [0..<length xs]) xs"

definition take_channel :: "'a ndarray \<Rightarrow> nat \<Rightarrow> 'a ndarray" where
  "take_channel A c =
     \<lparr>shape = butlast (shape A) @ [1],
      data = map (\<lambda>i. data A ! (i * last (shape A) + c)) [0..<prod_list (butlast (shape A))]\<rparr>"

text \<open>
  The input coordinate that column \<open>c\<close> of window \<open>p\<close> stands for: the anchor of the
  window (the multi-index of \<open>p\<close> among the window positions) plus the offset in the
  window (the multi-index of \<open>c div d\<close> in the filter's spatial shape), and the channel
  \<open>c mod d\<close>. \<open>window_sum\<close> is the sum of products of the window at \<open>p\<close> with filter
  \<open>j\<close> of \<open>nf\<close> filters stored side by side.
\<close>

definition window_coord :: "nat list \<Rightarrow> nat list \<Rightarrow> nat \<Rightarrow> nat \<Rightarrow> nat \<Rightarrow> nat list" where
  "window_coord ns ks d p c =
     map2 (+) (unravel (positions ns ks) p) (unravel ks (c div d)) @ [c mod d]"

definition window_sum ::
  "'a::comm_semiring_0 ndarray \<Rightarrow> nat list \<Rightarrow> nat list \<Rightarrow> nat \<Rightarrow> 'a ndarray \<Rightarrow> nat \<Rightarrow> nat \<Rightarrow> nat \<Rightarrow> 'a"
  where
  "window_sum X ns ks d W nf p j =
     (\<Sum>c\<leftarrow>[0..<prod_list ks * d]. item X (window_coord ns ks d p c) * data W ! (c * nf + j))"

text \<open>
  The shape law in the specification's words: the output has the spatial shape
  \<open>(n\<^sub>h - k\<^sub>h + 1, [n\<^sub>w - k\<^sub>w + 1])\<close>, followed by the output-filter axis of the filter
  when it has one (\<open>oax\<close> is \<open>[o]\<close> then, and \<open>[]\<close> otherwise).
\<close>

definition shape_law :: "nat list \<Rightarrow> nat list \<Rightarrow> nat list \<Rightarrow> nat list" where
  "shape_law ns ks oax = map2 (\<lambda>n k. n - k + 1) ns ks @ oax"

subsection \<open>The runs of the notebook\<close>

text \<open>
  The cells that compute each example, as the notebook runs them on its arrays: the
  first example gathers by positions only and squeezes the unit axis away, the third
  gathers a \<open>5 \<times> 5\<close> input without a channel axis by two index arrays.
\<close>

definition Z_cell18 :: "error + int ndarray" where
  "Z_cell18 =
     (case fancy X1 [ix] of
        Inl e \<Rightarrow> Inl e
      | Inr Xi \<Rightarrow> np_dot (squeeze Xi) W1)"

definition out_cell27 :: "error + int ndarray" where
  "out_cell27 =
     (case reshape W2 [6, 1] of
        Inl e \<Rightarrow> Inl e
      | Inr W \<Rightarrow>
         (case fancy X2 [ps_ix, ft_ix] of
            Inl e \<Rightarrow> Inl e
          | Inr Xhat \<Rightarrow> np_dot Xhat W))"


definition out_cell46 :: "error + int ndarray" where
  "out_cell46 =
     (case reshape W4 [18, 1] of
        Inl e \<Rightarrow> Inl e
      | Inr W \<Rightarrow>
         (case fancy X4 [h_ix2, w_ix2, ft_ix2] of
            Inl e \<Rightarrow> Inl e
          | Inr Xhat \<Rightarrow>
             (case np_dot Xhat W of
                Inl e \<Rightarrow> Inl e
              | Inr out \<Rightarrow> reshape out [3, 3])))"



text \<open>The elements of the output of the pipeline, and no element when it fails.\<close>

definition conv_data :: "'a::comm_semiring_0 ndarray \<Rightarrow> 'a ndarray \<Rightarrow> 'a list" where
  "conv_data X W = (case convolve X W of Inl e \<Rightarrow> [] | Inr out \<Rightarrow> data out)"

section \<open>Enumerations, offsets and the gather\<close>


lemma length_concat_uniform:
  "(\<And>x. x \<in> set xs \<Longrightarrow> length (g x) = m) \<Longrightarrow> length (concat (map g xs)) = length xs * m"
  by (induction xs) auto

lemma nth_concat_uniform:
  "(\<And>x. x \<in> set xs \<Longrightarrow> length (g x) = m) \<Longrightarrow> i < length xs \<Longrightarrow> j < m
   \<Longrightarrow> concat (map g xs) ! (i * m + j) = g (xs ! i) ! j"
proof (induction xs arbitrary: i)
  case Nil
  then show ?case by simp
next
  case (Cons x xs)
  show ?case
  proof (cases i)
    case 0
    with Cons.prems show ?thesis by (simp add: nth_append)
  next
    case (Suc i')
    have "concat (map g (x # xs)) ! (i * m + j) = concat (map g xs) ! (i' * m + j)"
      using Cons.prems(1)[of x] Suc by (simp add: nth_append)
    also have "\<dots> = g (xs ! i') ! j"
      using Cons.prems Suc by (intro Cons.IH) auto
    finally show ?thesis using Suc by simp
  qed
qed

lemma length_multi_indices: "length (multi_indices ns) = prod_list ns"
proof (induction ns)
  case Nil
  then show ?case by simp
next
  case (Cons n ns)
  have "length (multi_indices (n # ns)) = length [0..<n] * prod_list ns"
    unfolding multi_indices.simps
    by (rule length_concat_uniform) (simp add: Cons.IH)
  then show ?case by simp
qed

lemma nth_multi_indices: "i < prod_list ns \<Longrightarrow> multi_indices ns ! i = unravel ns i"
proof (induction ns arbitrary: i)
  case Nil
  then show ?case by simp
next
  case (Cons n ns)
  let ?m = "prod_list ns"
  from Cons.prems have lt: "i < n * ?m" by simp
  then have m: "0 < ?m" by (cases "?m") auto
  have d: "i div ?m < n" using lt m by (simp add: less_mult_imp_div_less mult.commute)
  have r: "i mod ?m < ?m" using m by simp
  have "multi_indices (n # ns) ! ((i div ?m) * ?m + i mod ?m)
        = map ((#) ([0..<n] ! (i div ?m))) (multi_indices ns) ! (i mod ?m)"
    unfolding multi_indices.simps
    by (rule nth_concat_uniform) (use d r in \<open>simp_all add: length_multi_indices\<close>)
  also have "\<dots> = (i div ?m) # multi_indices ns ! (i mod ?m)"
    using d r by (simp add: length_multi_indices)
  also have "\<dots> = (i div ?m) # unravel ns (i mod ?m)"
    using r by (simp add: Cons.IH)
  finally show ?case by simp
qed

lemma length_window_row:
  "length (concat (map (\<lambda>off. map (\<lambda>ch. map2 (+) a off @ [ch]) [0..<d]) (multi_indices ks)))
   = prod_list ks * d"
proof -
  have "length (concat (map (\<lambda>off. map (\<lambda>ch. map2 (+) a off @ [ch]) [0..<d]) (multi_indices ks)))
        = length (multi_indices ks) * d"
    by (rule length_concat_uniform) simp
  then show ?thesis by (simp add: length_multi_indices)
qed

lemma length_window_coords:
  "length (window_coords ns ks d) = prod_list (positions ns ks) * (prod_list ks * d)"
proof -
  have "length (window_coords ns ks d)
        = length (multi_indices (positions ns ks)) * (prod_list ks * d)"
    unfolding window_coords_def
    by (rule length_concat_uniform) (rule length_window_row)
  then show ?thesis by (simp add: length_multi_indices)
qed

lemma nth_window_coords:
  assumes p: "p < prod_list (positions ns ks)" and c: "c < prod_list ks * d"
  shows "window_coords ns ks d ! (p * (prod_list ks * d) + c)
         = map2 (+) (unravel (positions ns ks) p) (unravel ks (c div d)) @ [c mod d]"
proof -
  let ?K = "prod_list ks * d"
  let ?row = "\<lambda>a. concat (map (\<lambda>off. map (\<lambda>ch. map2 (+) a off @ [ch]) [0..<d]) (multi_indices ks))"
  from c have d: "0 < d" by (cases d) auto
  have q: "c div d < prod_list ks" using c d by (simp add: less_mult_imp_div_less)
  have r: "c mod d < d" using d by simp
  have "window_coords ns ks d ! (p * ?K + c) = ?row (multi_indices (positions ns ks) ! p) ! c"
    unfolding window_coords_def
    by (rule nth_concat_uniform) (use p c in \<open>simp_all add: length_window_row length_multi_indices\<close>)
  also have "\<dots> = ?row (unravel (positions ns ks) p) ! ((c div d) * d + c mod d)"
    using p by (simp add: nth_multi_indices)
  also have "\<dots> = map (\<lambda>ch. map2 (+) (unravel (positions ns ks) p) (multi_indices ks ! (c div d)) @ [ch]) [0..<d] ! (c mod d)"
    by (rule nth_concat_uniform) (use q r in \<open>simp_all add: length_multi_indices\<close>)
  also have "\<dots> = map2 (+) (unravel (positions ns ks) p) (unravel ks (c div d)) @ [c mod d]"
    using q r by (simp add: nth_multi_indices)
  finally show ?thesis .
qed

lemma length_unravel [simp]: "length (unravel sh i) = length sh"
  by (induction sh arbitrary: i) auto

lemma unravel_less: "i < prod_list sh \<Longrightarrow> list_all2 (<) (unravel sh i) sh"
proof (induction sh arbitrary: i)
  case Nil
  then show ?case by simp
next
  case (Cons n ns)
  from Cons.prems have lt: "i < n * prod_list ns" by simp
  then have m: "0 < prod_list ns" by (cases "prod_list ns") auto
  have "i div prod_list ns < n" using lt m by (simp add: less_mult_imp_div_less mult.commute)
  moreover have "list_all2 (<) (unravel ns (i mod prod_list ns)) ns"
    using m by (intro Cons.IH) simp
  ultimately show ?case by simp
qed

lemma ravel_less: "list_all2 (<) idx sh \<Longrightarrow> ravel sh idx < prod_list sh"
proof (induction idx sh rule: list_all2_induct)
  case Nil
  then show ?case by simp
next
  case (Cons i idx n sh)
  have "i * prod_list sh + ravel sh idx < Suc i * prod_list sh"
    using Cons.IH by simp
  also have "\<dots> \<le> n * prod_list sh"
    using Cons.hyps(1) by (intro mult_le_mono1) simp
  finally show ?case by simp
qed

lemma ravel_unravel: "i < prod_list sh \<Longrightarrow> ravel sh (unravel sh i) = i"
proof (induction sh arbitrary: i)
  case Nil
  then show ?case by simp
next
  case (Cons n ns)
  from Cons.prems have "0 < prod_list ns" by (cases "prod_list ns") auto
  then show ?case by (simp add: Cons.IH)
qed

lemma unravel_snoc:
  "c < prod_list ks * d \<Longrightarrow> unravel (ks @ [d]) c = unravel ks (c div d) @ [c mod d]"
proof (induction ks arbitrary: c)
  case Nil
  then show ?case by simp
next
  case (Cons k ks)
  from Cons.prems have lt: "c < k * (prod_list ks * d)" by (simp add: mult.assoc)
  then have m: "0 < prod_list ks * d" by (cases "prod_list ks * d") auto
  have 1: "c div (prod_list ks * d) = c div d div prod_list ks"
    by (simp add: div_mult2_eq mult.commute)
  from m have dpos: "0 < d" by simp
  have 2: "c mod (prod_list ks * d) div d = c div d mod prod_list ks"
    using dpos by (simp add: mod_mult2_eq mult.commute)
  have 3: "c mod (prod_list ks * d) mod d = c mod d"
    by (simp add: mod_mod_cancel)
  have "unravel ks (c mod (prod_list ks * d) div d) @ [c mod (prod_list ks * d) mod d]
        = unravel (ks @ [d]) (c mod (prod_list ks * d))"
    using m by (intro Cons.IH [symmetric]) simp
  then show ?case using 1 2 3 by simp
qed

lemma ravel_index_in_bounds:
  "list_all2 (<) idx sh \<Longrightarrow>
   ravel_index acc sh (map int idx) = Some (acc * prod_list sh + ravel sh idx)"
proof (induction idx sh arbitrary: acc rule: list_all2_induct)
  case Nil
  then show ?case by simp
next
  case (Cons i idx n sh)
  have "np_index n (int i) = Some i"
    using Cons.hyps(1) by (simp add: np_index_def)
  then show ?case by (simp add: Cons.IH algebra_simps)
qed

lemma window_coord_less:
  assumes len: "length ks = length ns" and le: "list_all2 (\<le>) ks ns"
    and p: "p < prod_list (positions ns ks)" and c: "c < prod_list ks * d"
  shows "list_all2 (<) (window_coord ns ks d p c) (ns @ [d])"
proof -
  from c have d: "0 < d" by (cases d) auto
  have q: "c div d < prod_list ks" using c d by (simp add: less_mult_imp_div_less)
  have a: "list_all2 (<) (unravel (positions ns ks) p) (positions ns ks)"
    using p by (rule unravel_less)
  have b: "list_all2 (<) (unravel ks (c div d)) ks"
    using q by (rule unravel_less)
  have "list_all2 (<) (map2 (+) (unravel (positions ns ks) p) (unravel ks (c div d))) ns"
  proof (rule list_all2_all_nthI)
    show "length (map2 (+) (unravel (positions ns ks) p) (unravel ks (c div d))) = length ns"
      using len by (simp add: positions_def)
  next
    fix i assume "i < length (map2 (+) (unravel (positions ns ks) p) (unravel ks (c div d)))"
    then have i: "i < length ns" using len by (simp add: positions_def)
    have "unravel (positions ns ks) p ! i < positions ns ks ! i"
      using a i len by (simp add: list_all2_conv_all_nth positions_def)
    moreover have "positions ns ks ! i = ns ! i + 1 - ks ! i"
      using i len by (simp add: positions_def)
    moreover have "unravel ks (c div d) ! i < ks ! i"
      using b i len by (simp add: list_all2_conv_all_nth)
    moreover have "ks ! i \<le> ns ! i"
      using le i len by (simp add: list_all2_conv_all_nth)
    ultimately show "map2 (+) (unravel (positions ns ks) p) (unravel ks (c div d)) ! i < ns ! i"
      using i len by (simp add: positions_def)
  qed
  moreover have "c mod d < d" using d by simp
  ultimately show ?thesis
    unfolding window_coord_def by (simp add: list_all2_appendI)
qed

lemma those_map_Some: "those (map (\<lambda>x. Some (f x)) xs) = Some (map f xs)"
  by (induction xs) auto

lemma concat_map_singleton: "concat (map (\<lambda>x. [f x]) xs) = map f xs"
  by (induction xs) auto

lemma fancy_full:
  assumes ne: "idxs \<noteq> []" and len: "length idxs = length (shape X)"
    and sh: "\<And>I. I \<in> set idxs \<Longrightarrow> shape I = S"
    and off: "\<And>s. s < prod_list S \<Longrightarrow>
                ravel_index 0 (shape X) (map (\<lambda>I. data I ! s) idxs) = Some (off s)"
    and bd: "\<And>s. s < prod_list S \<Longrightarrow> off s < length (data X)"
  shows "fancy X idxs = Inr \<lparr>shape = S, data = map (\<lambda>s. data X ! off s) [0..<prod_list S]\<rparr>"
proof -
  have hd: "shape (hd idxs) = S" using ne sh by (cases idxs) auto
  have same: "\<not> list_ex (\<lambda>I. shape I \<noteq> shape (hd idxs)) idxs"
    using sh hd by (simp add: list_ex_iff)
  have m: "take (length idxs) (shape X) = shape X" "drop (length idxs) (shape X) = []"
    using len by simp_all
  have offs: "map (\<lambda>s. ravel_index 0 (shape X) (map (\<lambda>I. data I ! s) idxs))
                [0..<prod_list S] = map (\<lambda>s. Some (off s)) [0..<prod_list S]"
    using off by (intro map_cong) auto
  have block: "take (Suc 0) (drop (off s) (data X)) = [data X ! off s]" if "s < prod_list S" for s
    using bd [OF that] by (simp add: Cons_nth_drop_Suc [symmetric])
  have blocks: "map ((\<lambda>off. take (Suc 0) (drop off (data X))) \<circ> off) [0..<prod_list S]
                = map (\<lambda>s. [data X ! off s]) [0..<prod_list S]"
    using block by simp
  have "fancy X idxs = Inr \<lparr>shape = S @ [],
           data = concat (map (\<lambda>off. take (prod_list []) (drop (off * prod_list []) (data X)))
                    (map off [0..<prod_list S]))\<rparr>"
    unfolding fancy_def Let_def m hd offs those_map_Some
    using ne len same hd by simp
  then show ?thesis
    by (simp add: blocks concat_map_singleton)
qed

lemma length_window_coord:
  "length ks = length ns \<Longrightarrow> length (window_coord ns ks d p c) = length ns + 1"
  by (simp add: window_coord_def positions_def)

lemma unfold_valid:
  assumes X: "shape X = ns @ [d]" and wf: "wf_array X"
    and len: "length ks = length ns" and le: "list_all2 (\<le>) ks ns"
  shows "fancy X (build_window_indices ns ks d)
         = Inr \<lparr>shape = [prod_list (positions ns ks), prod_list ks * d],
                data = map (\<lambda>s. item X (window_coord ns ks d (s div (prod_list ks * d))
                                                              (s mod (prod_list ks * d))))
                         [0..<prod_list (positions ns ks) * (prod_list ks * d)]\<rparr>"
proof -
  let ?P = "prod_list (positions ns ks)" and ?K = "prod_list ks * d"
  let ?S = "[?P, ?K]"
  let ?wc = "\<lambda>s. window_coord ns ks d (s div ?K) (s mod ?K)"
  let ?off = "\<lambda>s. ravel (shape X) (?wc s)"
  have split: "s div ?K < ?P \<and> s mod ?K < ?K" if "s < prod_list ?S" for s
  proof -
    from that have lt: "s < ?P * ?K" by simp
    then have "0 < ?K" by (cases "?K") auto
    then show ?thesis using lt by (simp add: less_mult_imp_div_less)
  qed
  have less: "list_all2 (<) (?wc s) (shape X)" if "s < prod_list ?S" for s
    unfolding X using len le split [OF that] by (intro window_coord_less) simp_all
  have "fancy X (build_window_indices ns ks d)
        = Inr \<lparr>shape = ?S, data = map (\<lambda>s. data X ! ?off s) [0..<prod_list ?S]\<rparr>"
  proof (rule fancy_full)
    show "build_window_indices ns ks d \<noteq> []"
      by (simp add: build_window_indices_def)
    show "length (build_window_indices ns ks d) = length (shape X)"
      by (simp add: build_window_indices_def X)
    show "shape I = ?S" if "I \<in> set (build_window_indices ns ks d)" for I
      using that by (auto simp: build_window_indices_def)
    show "ravel_index 0 (shape X) (map (\<lambda>I. data I ! s) (build_window_indices ns ks d))
          = Some (?off s)" if s: "s < prod_list ?S" for s
    proof -
      from s have lt: "s < length (window_coords ns ks d)"
        by (simp add: length_window_coords)
      have "window_coords ns ks d ! ((s div ?K) * ?K + s mod ?K) = ?wc s"
        unfolding window_coord_def using split [OF s] by (intro nth_window_coords) simp_all
      then have nth: "window_coords ns ks d ! s = ?wc s" by (simp only: div_mult_mod_eq)
      have "map (\<lambda>I. data I ! s) (build_window_indices ns ks d)
            = map (\<lambda>t. int (?wc s ! t)) [0..<length (?wc s)]"
        using lt nth by (simp add: build_window_indices_def length_window_coord len comp_def)
      also have "\<dots> = map int (?wc s)"
        by (simp add: map_nth flip: map_map [unfolded comp_def])
      finally show ?thesis
        using ravel_index_in_bounds [OF less [OF s], of 0] by simp
    qed
    show "?off s < length (data X)" if "s < prod_list ?S" for s
      using ravel_less [OF less [OF that]] wf by (simp add: wf_array_def)
  qed
  then show ?thesis by (simp add: item_def)
qed

lemma np_dot_matrix:
  assumes "shape A = [P, K]" and "shape B = [K, nf]"
  shows "np_dot A B
         = Inr \<lparr>shape = [P, nf],
                data = map (\<lambda>i. \<Sum>c\<leftarrow>[0..<K]. data A ! ((i div nf) * K + c) * data B ! (c * nf + i mod nf))
                         [0..<P * nf]\<rparr>"
  using assms by (simp add: np_dot_def)

lemma convolve_valid:
  fixes X W :: "'a::comm_semiring_0 ndarray"
  assumes X: "shape X = ns @ [d]" and wfX: "wf_array X"
    and len: "length ks = length ns" and le: "list_all2 (\<le>) ks ns"
    and W: "shape W = ks @ [d] @ oax" and oax: "oax = [] \<and> nf = 1 \<or> oax = [nf]"
    and wfW: "wf_array W"
  shows "convolve X W
         = Inr \<lparr>shape = (if length ns = 1 then [prod_list (positions ns ks), nf]
                         else positions ns ks @ oax),
                data = map (\<lambda>i. window_sum X ns ks d W nf (i div nf) (i mod nf))
                         [0..<prod_list (positions ns ks) * nf]\<rparr>"
proof -
  let ?P = "prod_list (positions ns ks)" and ?K = "prod_list ks * d"
  let ?Xhat = "\<lparr>shape = [?P, ?K],
                 data = map (\<lambda>s. item X (window_coord ns ks d (s div ?K) (s mod ?K)))
                          [0..<?P * ?K]\<rparr>"
  let ?Wf = "\<lparr>shape = [?K, nf], data = data W\<rparr>"
  let ?out = "\<lparr>shape = [?P, nf],
                data = map (\<lambda>i. window_sum X ns ks d W nf (i div nf) (i mod nf)) [0..<?P * nf]\<rparr>"
  have sx: "shape X \<noteq> []" "butlast (shape X) = ns" "last (shape X) = d"
    using X by simp_all
  have ks: "take (length ns) (shape W) = ks"
    using W len by simp
  have batched: "(length (shape W) = length ns + 2) = (oax \<noteq> [])"
    using W len oax by auto
  have nf: "(if oax \<noteq> [] then last (shape W) else 1) = nf"
    using W oax by auto
  have size: "length (data W) = ?K * nf"
    using wfW W oax by (auto simp: wf_array_def)
  have flat: "reshape W [?K, nf] = Inr ?Wf"
    by (simp add: reshape_def size)
  have unfold: "fancy X (build_window_indices ns ks d) = Inr ?Xhat"
    using X wfX len le by (rule unfold_valid)
  have entry: "(\<Sum>c\<leftarrow>[0..<?K]. data ?Xhat ! ((i div nf) * ?K + c) * data ?Wf ! (c * nf + i mod nf))
               = window_sum X ns ks d W nf (i div nf) (i mod nf)" if i: "i < ?P * nf" for i
  proof -
    from i have "0 < nf" by (cases nf) auto
    then have p: "i div nf < ?P" using i by (simp add: less_mult_imp_div_less)
    have "data ?Xhat ! ((i div nf) * ?K + c) = item X (window_coord ns ks d (i div nf) c)"
      if c: "c < ?K" for c
    proof -
      have "(i div nf) * ?K + c < Suc (i div nf) * ?K" using c by simp
      also have "\<dots> \<le> ?P * ?K" using p by (intro mult_le_mono1) simp
      finally have lt: "(i div nf) * ?K + c < ?P * ?K" .
      from c have "?K \<noteq> 0" by (cases "?K") auto
      then have dv: "((i div nf) * ?K + c) div ?K = i div nf"
        and md: "((i div nf) * ?K + c) mod ?K = c"
        using c by simp_all
      show ?thesis using lt c by (simp add: dv)
    qed
    then have "map (\<lambda>c. data ?Xhat ! ((i div nf) * ?K + c) * data ?Wf ! (c * nf + i mod nf)) [0..<?K]
               = map (\<lambda>c. item X (window_coord ns ks d (i div nf) c) * data W ! (c * nf + i mod nf)) [0..<?K]"
      by (intro map_cong) auto
    then show ?thesis unfolding window_sum_def by (rule arg_cong)
  qed
  have "np_dot ?Xhat ?Wf
        = Inr \<lparr>shape = [?P, nf],
               data = map (\<lambda>i. \<Sum>c\<leftarrow>[0..<?K]. data ?Xhat ! ((i div nf) * ?K + c)
                                               * data ?Wf ! (c * nf + i mod nf)) [0..<?P * nf]\<rparr>"
    by (rule np_dot_matrix) simp_all
  also have "map (\<lambda>i. \<Sum>c\<leftarrow>[0..<?K]. data ?Xhat ! ((i div nf) * ?K + c)
                                    * data ?Wf ! (c * nf + i mod nf)) [0..<?P * nf]
             = map (\<lambda>i. window_sum X ns ks d W nf (i div nf) (i mod nf)) [0..<?P * nf]"
    using entry by (intro map_cong) auto
  finally have dot: "np_dot ?Xhat ?Wf = Inr ?out" .
  show ?thesis
    unfolding convolve_def Let_def sx ks batched nf
    using sx(1) oax size by (auto simp add: unfold dot reshape_def)
qed



lemma index_tuple:
  assumes len: "length ks = length ns"
    and p: "p < prod_list (positions ns ks)" and c: "c < prod_list ks * d"
  shows "map (\<lambda>I. item I [p, c]) (build_window_indices ns ks d)
         = map int (window_coord ns ks d p c)"
proof -
  let ?K = "prod_list ks * d"
  have "p * ?K + c < Suc p * ?K" using c by simp
  also have "\<dots> \<le> prod_list (positions ns ks) * ?K"
    using p by (intro mult_le_mono1) simp
  finally have lt: "p * ?K + c < length (window_coords ns ks d)"
    by (simp add: length_window_coords)
  have nth: "window_coords ns ks d ! (p * ?K + c) = window_coord ns ks d p c"
    unfolding window_coord_def using p c by (rule nth_window_coords)
  have "map (\<lambda>I. item I [p, c]) (build_window_indices ns ks d)
        = map (\<lambda>t. int (window_coord ns ks d p c ! t)) [0..<length (window_coord ns ks d p c)]"
    using lt nth by (simp add: build_window_indices_def item_def length_window_coord len comp_def)
  also have "\<dots> = map int (window_coord ns ks d p c)"
    by (simp add: map_nth flip: map_map [unfolded comp_def])
  finally show ?thesis .
qed

lemma window_coord_rank1: "window_coord [n] [k] d p c = [p + c div d, c mod d]"
  by (simp add: window_coord_def positions_def)

lemma window_coord_rank2:
  "window_coord [nh, nw] [kh, kw] d p c
   = [p div (nw + 1 - kw) + c div (kw * d), p mod (nw + 1 - kw) + c div d mod kw, c mod d]"
  by (simp add: window_coord_def positions_def div_mult2_eq mult.commute)

lemma build_rank1:
  "\<exists>h ch. build_window_indices [n] [k] d = [h, ch]
      \<and> shape h = [n + 1 - k, k * d] \<and> shape ch = [n + 1 - k, k * d]
      \<and> wf_array h \<and> wf_array ch"
  by (simp add: build_window_indices_def positions_def wf_array_def length_window_coords)

lemma build_rank2:
  "\<exists>h w ch. build_window_indices [nh, nw] [kh, kw] d = [h, w, ch]
      \<and> shape h = [(nh + 1 - kh) * (nw + 1 - kw), kh * kw * d]
      \<and> shape w = [(nh + 1 - kh) * (nw + 1 - kw), kh * kw * d]
      \<and> shape ch = [(nh + 1 - kh) * (nw + 1 - kw), kh * kw * d]
      \<and> wf_array h \<and> wf_array w \<and> wf_array ch"
  by (simp add: build_window_indices_def positions_def wf_array_def length_window_coords
      upt_rec [of 0] upt_rec [of 1] upt_rec [of 2] numeral_3_eq_3)

text \<open>
  The literal index tables of the notebook are what the rule builds for the shapes of
  its examples. The first example indexes the \<open>7 \<times> 1\<close> input by positions only
  (\<open>X[ix]\<close>), the third the \<open>5 \<times> 5\<close> input without a channel axis (\<open>X[h_ix, w_ix]\<close>).
\<close>

lemma table_cell16: "build_window_indices [7] [3] 1 ! 0 = ix"
  by code_simp

lemma table_cell25: "build_window_indices [7] [3] 2 = [ps_ix, ft_ix]"
  by code_simp

lemma table_cell35: "take 2 (build_window_indices [5, 5] [3, 3] 1) = [h_ix, w_ix]"
  by code_simp

lemma table_cell44: "build_window_indices [5, 5] [3, 3] 2 = [h_ix2, w_ix2, ft_ix2]"
  by code_simp

section \<open>The index arrays name the window elements\<close>

text \<open>
  Claim C3. For every valid input and filter spatial shape and channel count (each
  \<open>k\<^sub>i \<le> n\<^sub>i\<close>, \<open>d \<ge> 1\<close>), \<open>build_window_indices\<close> returns one integer index array for
  each gathered axis, each of shape \<open>(P, K)\<close> with \<open>P\<close> the product of the
  \<open>n\<^sub>i - k\<^sub>i + 1\<close> and \<open>K = k\<^sub>h * [k\<^sub>w *] d\<close>, and at row \<open>p\<close> and column \<open>c\<close> the index
  values are the anchor of window \<open>p\<close> plus the spatial offset of the flattened
  position \<open>c\<close> on each spatial axis, and the channel of \<open>c\<close>. With one spatial axis
  the anchor of \<open>p\<close> is \<open>p\<close>, the offset of \<open>c\<close> is \<open>c div d\<close>; with two, the anchor is
  \<open>(p div P\<^sub>w, p mod P\<^sub>w)\<close> for \<open>P\<^sub>w = n\<^sub>w - k\<^sub>w + 1\<close> and the offset is
  \<open>(c div (k\<^sub>w * d), c div d mod k\<^sub>w)\<close>; the channel is \<open>c mod d\<close>.
\<close>

theorem build_window_indices_entries:
  "(1 \<le> k \<and> k \<le> n \<and> 1 \<le> d \<longrightarrow>
      (\<exists>h ch. build_window_indices [n] [k] d = [h, ch]
         \<and> shape h = [n - k + 1, k * d] \<and> shape ch = [n - k + 1, k * d]
         \<and> wf_array h \<and> wf_array ch
         \<and> (\<forall>p < n - k + 1. \<forall>c < k * d.
               item h [p, c] = int (p + c div d) \<and> item ch [p, c] = int (c mod d))))
   \<and> (1 \<le> kh \<and> kh \<le> nh \<and> 1 \<le> kw \<and> kw \<le> nw \<and> 1 \<le> d \<longrightarrow>
      (\<exists>h w ch. build_window_indices [nh, nw] [kh, kw] d = [h, w, ch]
         \<and> shape h = [(nh - kh + 1) * (nw - kw + 1), kh * kw * d]
         \<and> shape w = [(nh - kh + 1) * (nw - kw + 1), kh * kw * d]
         \<and> shape ch = [(nh - kh + 1) * (nw - kw + 1), kh * kw * d]
         \<and> wf_array h \<and> wf_array w \<and> wf_array ch
         \<and> (\<forall>p < (nh - kh + 1) * (nw - kw + 1). \<forall>c < kh * kw * d.
               item h [p, c] = int (p div (nw - kw + 1) + c div (kw * d))
             \<and> item w [p, c] = int (p mod (nw - kw + 1) + c div d mod kw)
             \<and> item ch [p, c] = int (c mod d))))"
proof (intro conjI impI)
  assume a: "1 \<le> k \<and> k \<le> n \<and> 1 \<le> d"
  then have P: "n + 1 - k = n - k + 1" by (simp add: Suc_diff_le)
  obtain h ch where b: "build_window_indices [n] [k] d = [h, ch]"
    "shape h = [n + 1 - k, k * d]" "shape ch = [n + 1 - k, k * d]" "wf_array h" "wf_array ch"
    using build_rank1 by blast
  have "item h [p, c] = int (p + c div d) \<and> item ch [p, c] = int (c mod d)"
    if "p < n - k + 1" "c < k * d" for p c
    using index_tuple [of "[k]" "[n]" p c d] that P
    by (simp add: b window_coord_rank1 positions_def)
  with b P show "\<exists>h ch. build_window_indices [n] [k] d = [h, ch]
         \<and> shape h = [n - k + 1, k * d] \<and> shape ch = [n - k + 1, k * d]
         \<and> wf_array h \<and> wf_array ch
         \<and> (\<forall>p < n - k + 1. \<forall>c < k * d.
               item h [p, c] = int (p + c div d) \<and> item ch [p, c] = int (c mod d))"
    by auto
next
  assume a: "1 \<le> kh \<and> kh \<le> nh \<and> 1 \<le> kw \<and> kw \<le> nw \<and> 1 \<le> d"
  then have P: "nh + 1 - kh = nh - kh + 1" "nw + 1 - kw = nw - kw + 1"
    by (simp_all add: Suc_diff_le)
  obtain h w ch where b: "build_window_indices [nh, nw] [kh, kw] d = [h, w, ch]"
    "shape h = [(nh + 1 - kh) * (nw + 1 - kw), kh * kw * d]"
    "shape w = [(nh + 1 - kh) * (nw + 1 - kw), kh * kw * d]"
    "shape ch = [(nh + 1 - kh) * (nw + 1 - kw), kh * kw * d]"
    "wf_array h" "wf_array w" "wf_array ch"
    using build_rank2 by blast
  have "item h [p, c] = int (p div (nw - kw + 1) + c div (kw * d))
      \<and> item w [p, c] = int (p mod (nw - kw + 1) + c div d mod kw)
      \<and> item ch [p, c] = int (c mod d)"
    if "p < (nh - kh + 1) * (nw - kw + 1)" "c < kh * kw * d" for p c
    using index_tuple [of "[kh, kw]" "[nh, nw]" p c d] that P
    by (simp add: b window_coord_rank2 positions_def)
  with b P show "\<exists>h w ch. build_window_indices [nh, nw] [kh, kw] d = [h, w, ch]
         \<and> shape h = [(nh - kh + 1) * (nw - kw + 1), kh * kw * d]
         \<and> shape w = [(nh - kh + 1) * (nw - kw + 1), kh * kw * d]
         \<and> shape ch = [(nh - kh + 1) * (nw - kw + 1), kh * kw * d]
         \<and> wf_array h \<and> wf_array w \<and> wf_array ch
         \<and> (\<forall>p < (nh - kh + 1) * (nw - kw + 1). \<forall>c < kh * kw * d.
               item h [p, c] = int (p div (nw - kw + 1) + c div (kw * d))
             \<and> item w [p, c] = int (p mod (nw - kw + 1) + c div d mod kw)
             \<and> item ch [p, c] = int (c mod d))"
    by auto
qed

theorem build_window_indices_entries_witness:
  "(1::nat) \<le> 3 \<and> (3::nat) \<le> 7 \<and> (3::nat) \<le> 5 \<and> (1::nat) \<le> 2
   \<and> item (build_window_indices [7] [3] 2 ! 0) [4, 5] = 6
   \<and> item (build_window_indices [7] [3] 2 ! 1) [4, 5] = 1
   \<and> item (build_window_indices [5, 5] [3, 3] 2 ! 0) [5, 13] = 3
   \<and> item (build_window_indices [5, 5] [3, 3] 2 ! 1) [5, 13] = 2
   \<and> item (build_window_indices [5, 5] [3, 3] 2 ! 2) [5, 13] = 1"
proof -
  note t = build_window_indices_entries
    [where k = 3 and n = 7 and d = 2 and kh = 3 and nh = 5 and kw = 3 and nw = 5]
  from t obtain h ch where a: "build_window_indices [7] [3] 2 = [h, ch]"
    "\<forall>p < 7 - 3 + 1. \<forall>c < 3 * 2. item h [p, c] = int (p + c div 2) \<and> item ch [p, c] = int (c mod 2)"
    by auto
  from t obtain h' w' ch' where b: "build_window_indices [5, 5] [3, 3] 2 = [h', w', ch']"
    "\<forall>p < (5 - 3 + 1) * (5 - 3 + 1). \<forall>c < 3 * 3 * 2.
        item h' [p, c] = int (p div (5 - 3 + 1) + c div (3 * 2))
      \<and> item w' [p, c] = int (p mod (5 - 3 + 1) + c div 2 mod 3)
      \<and> item ch' [p, c] = int (c mod 2)"
    by auto
  from a(2) have "item h [4, 5] = int (4 + 5 div 2) \<and> item ch [4, 5] = int (5 mod 2)"
    by simp
  moreover from b(2) have "item h' [5, 13] = int (5 div (5 - 3 + 1) + 13 div (3 * 2))
      \<and> item w' [5, 13] = int (5 mod (5 - 3 + 1) + 13 div 2 mod 3)
      \<and> item ch' [5, 13] = int (13 mod 2)"
    by simp
  ultimately show ?thesis by (simp add: a(1) b(1))
qed

section \<open>The index arrays stay within the input\<close>

text \<open>
  Claim C10. Every entry of every window index array is within the bounds of the axis
  it indexes (the entries for a spatial axis in \<open>[0, n\<^sub>i - 1]\<close>, the channel entries in
  \<open>[0, d - 1]\<close>), so that the gather is defined at every row and column: the unfolding
  never indexes out of bounds.
\<close>

theorem window_indices_in_bounds:
  assumes len: "length ks = length ns" and le: "list_all2 (\<le>) ks ns"
    and X: "shape X = ns @ [d]" and wf: "wf_array X"
  shows "(\<forall>t < length ns + 1. \<forall>e \<in> set (data (build_window_indices ns ks d ! t)).
            0 \<le> e \<and> e < int ((ns @ [d]) ! t))
         \<and> (\<exists>Xhat. fancy X (build_window_indices ns ks d) = Inr Xhat)"
proof (intro conjI allI impI ballI)
  fix t e
  assume t: "t < length ns + 1"
    and e: "e \<in> set (data (build_window_indices ns ks d ! t))"
  let ?K = "prod_list ks * d"
  from t e obtain s where s: "s < length (window_coords ns ks d)"
    and es: "e = int (window_coords ns ks d ! s ! t)"
    by (auto simp: build_window_indices_def in_set_conv_nth simp del: upt_Suc)
  from s have lt: "s < prod_list (positions ns ks) * ?K"
    by (simp add: length_window_coords)
  then have K: "0 < ?K" by (cases "?K") auto
  then have pc: "s div ?K < prod_list (positions ns ks)" "s mod ?K < ?K"
    using lt by (simp_all add: less_mult_imp_div_less)
  have "window_coords ns ks d ! ((s div ?K) * ?K + s mod ?K)
        = window_coord ns ks d (s div ?K) (s mod ?K)"
    unfolding window_coord_def using pc by (rule nth_window_coords)
  then have nth: "window_coords ns ks d ! s = window_coord ns ks d (s div ?K) (s mod ?K)"
    by (simp only: div_mult_mod_eq)
  have "list_all2 (<) (window_coord ns ks d (s div ?K) (s mod ?K)) (ns @ [d])"
    using len le pc by (rule window_coord_less)
  then have "window_coord ns ks d (s div ?K) (s mod ?K) ! t < (ns @ [d]) ! t"
    using t by (simp add: list_all2_conv_all_nth)
  then show "0 \<le> e" and "e < int ((ns @ [d]) ! t)"
    by (simp_all add: es nth)
next
  show "\<exists>Xhat. fancy X (build_window_indices ns ks d) = Inr Xhat"
    using unfold_valid [OF X wf len le] by blast
qed

theorem window_indices_in_bounds_witness:
  "length [3::nat, 3] = length [5::nat, 5] \<and> list_all2 (\<le>) [3::nat, 3] [5, 5]
   \<and> shape X4 = [5, 5] @ [2] \<and> wf_array X4
   \<and> (4::int) \<in> set (data (build_window_indices [5, 5] [3, 3] 2 ! 1))
   \<and> (0::int) \<le> 4 \<and> (4::int) < int (([5, 5] @ [2]) ! 1)
   \<and> (\<exists>Xhat. fancy X4 (build_window_indices [5, 5] [3, 3] 2) = Inr Xhat)"
proof -
  have h: "length [3::nat, 3] = length [5::nat, 5]" "list_all2 (\<le>) [3::nat, 3] [5, 5]"
    "shape X4 = [5, 5] @ [2]" "wf_array X4"
    by (simp_all add: X4_def array3_def wf_array_def)
  have m: "(4::int) \<in> set (data (build_window_indices [5, 5] [3, 3] 2 ! 1))"
    by (simp add: table_cell44 w_ix2_def array2_def)
  show ?thesis
    using h m window_indices_in_bounds [OF h] by simp
qed

section \<open>The double sum and the matrix product\<close>

lemma column_eq: "column xs = \<lparr>shape = [length xs, 1], data = xs\<rparr>"
  by (simp add: column_def np_transpose_def array2_def map_nth)

lemma convolve_column:
  fixes X W :: "'a::comm_semiring_0 ndarray"
  assumes X: "shape X = [n, 1]" and wfX: "wf_array X"
    and W: "shape W = [k, 1]" and wfW: "wf_array W" and kn: "k \<le> n"
  shows "convolve X W
         = Inr \<lparr>shape = [n - k + 1, 1],
                data = map (\<lambda>p. \<Sum>j\<leftarrow>[0..<k]. data X ! (p + j) * data W ! j) [0..<n - k + 1]\<rparr>"
proof -
  have P: "n + 1 - k = n - k + 1" using kn by (simp add: Suc_diff_le)
  have "convolve X W
        = Inr \<lparr>shape = (if length [n] = 1 then [prod_list (positions [n] [k]), 1]
                        else positions [n] [k] @ []),
               data = map (\<lambda>i. window_sum X [n] [k] 1 W 1 (i div 1) (i mod 1))
                        [0..<prod_list (positions [n] [k]) * 1]\<rparr>"
    by (rule convolve_valid) (use X wfX W wfW kn in simp_all)
  moreover have "window_sum X [n] [k] 1 W 1 p 0 = (\<Sum>j\<leftarrow>[0..<k]. data X ! (p + j) * data W ! j)" for p
    by (simp add: window_sum_def window_coord_def positions_def item_def X)
  ultimately show ?thesis
    using P by (simp add: positions_def)
qed

lemma conv_loop_total:
  assumes "\<And>m. m \<in> set ms \<Longrightarrow> getitem f (n - m) = Inr (F m) \<and> getitem g m = Inr (G m)"
  shows "conv_loop f g n ms res = Inr (res + (\<Sum>m\<leftarrow>ms. F m * G m))"
  using assms by (induction ms arbitrary: res) (simp_all add: algebra_simps)

lemma getitem_dict_from:
  assumes "lo \<le> k" and "k < lo + int (length xs)"
  shows "getitem (dict_from lo xs) k = Inr (xs ! nat (k - lo))"
proof -
  let ?keys = "map (\<lambda>i. lo + int i) [0..<length xs]"
  have i: "nat (k - lo) < length xs" using assms by simp
  have "distinct ?keys" by (simp add: distinct_map inj_on_def)
  then have "map_of (zip ?keys xs) (?keys ! nat (k - lo)) = Some (xs ! nat (k - lo))"
    using i by (intro map_of_zip_nth) simp_all
  moreover have "?keys ! nat (k - lo) = k" using i assms by simp
  ultimately show ?thesis by (simp add: getitem_def dict_from_def)
qed

lemma length_dict_from: "length (dict_from lo xs) = length xs"
  by (simp add: dict_from_def)

lemma upto_centred: "[- int M..int M] = map (\<lambda>i. int i - int M) [0..<2 * M + 1]"
  by (rule nth_equalityI) (simp_all del: upt_Suc)

lemma sum_list_upt_rev:
  fixes f :: "nat \<Rightarrow> 'a::comm_monoid_add"
  shows "(\<Sum>i\<leftarrow>[0..<n]. f (n - Suc i)) = (\<Sum>i\<leftarrow>[0..<n]. f i)"
  by (simp add: interv_sum_list_conv_sum_set_nat atLeast0LessThan sum.nat_diff_reindex)

lemma cnv_dict:
  assumes g: "length gs = 2 * M + 1" and p: "p + length gs \<le> length xs"
  shows "cnv (dict_from (- int M) xs) (dict_from (- int M) gs) (int p)
         = Inr (\<Sum>j\<leftarrow>[0..<length gs]. xs ! (p + j) * rev gs ! j)"
proof -
  let ?f = "dict_from (- int M) xs" and ?g = "dict_from (- int M) gs"
  let ?F = "\<lambda>m. xs ! nat (int p - m + int M)" and ?G = "\<lambda>m. gs ! nat (m + int M)"
  have M: "int (length (dict_from (- int M) gs)) div 2 = int M"
    using g by (simp add: length_dict_from)
  have keys: "getitem ?f (int p - m) = Inr (?F m) \<and> getitem ?g m = Inr (?G m)"
    if "m \<in> set [- int M..int M]" for m
  proof -
    from that have m: "- int M \<le> m" "m \<le> int M" by simp_all
    have "getitem ?f (int p - m) = Inr (xs ! nat (int p - m - (- int M)))"
      using m p g by (intro getitem_dict_from) simp_all
    moreover have "getitem ?g m = Inr (gs ! nat (m - (- int M)))"
      using m g by (intro getitem_dict_from) simp_all
    ultimately show ?thesis by simp
  qed
  have "cnv ?f ?g (int p) = Inr (0 + (\<Sum>m\<leftarrow>[- int M..int M]. ?F m * ?G m))"
    unfolding cnv_def Let_def M using keys by (rule conv_loop_total)
  also have "(\<Sum>m\<leftarrow>[- int M..int M]. ?F m * ?G m)
             = (\<Sum>i\<leftarrow>[0..<2 * M + 1]. xs ! (p + (2 * M + 1 - Suc i)) * rev gs ! (2 * M + 1 - Suc i))"
  proof -
    have "?F (int i - int M) * ?G (int i - int M)
          = xs ! (p + (2 * M + 1 - Suc i)) * rev gs ! (2 * M + 1 - Suc i)"
      if "i \<in> set [0..<2 * M + 1]" for i
    proof -
      from that have i: "i \<le> 2 * M" by auto
      then have "nat (int p - (int i - int M) + int M) = p + (2 * M - i)" by simp
      moreover have "nat (int i - int M + int M) = i" by simp
      moreover have "rev gs ! (2 * M - i) = gs ! i"
        using i g by (simp add: rev_nth)
      ultimately show ?thesis by simp
    qed
    then show ?thesis
      unfolding upto_centred map_map comp_def
      by (intro arg_cong [where f = sum_list] map_cong refl)
  qed
  also have "\<dots> = (\<Sum>j\<leftarrow>[0..<2 * M + 1]. xs ! (p + j) * rev gs ! j)"
    by (rule sum_list_upt_rev)
  finally show ?thesis by (simp add: g)
qed

lemma sum_list_unit:
  fixes w :: "'a::comm_semiring_1 list"
  assumes "j < k"
  shows "(\<Sum>i\<leftarrow>[0..<k]. (replicate k 0)[j := 1] ! i * w ! i) = w ! j"
proof -
  have "(\<Sum>i\<leftarrow>[0..<k]. (replicate k 0)[j := 1] ! i * w ! i)
        = (\<Sum>i \<in> {0..<k}. if i = j then w ! i else 0)"
    unfolding interv_sum_list_conv_sum_set_nat
    by (intro sum.cong) (auto simp: nth_list_update)
  also have "\<dots> = w ! j" using assms by simp
  finally show ?thesis .
qed

text \<open>The cells of the first example, as the notebook runs them.\<close>

lemma notebook_dicts:
  "f_dict = dict_from (- 1) [0, 1, 2, - 1, 1, - 3, 0]" "g_dict = dict_from (- 1) [- 1, 0, 1]"
  by (simp_all add: f_dict_def g_dict_def dict_from_def upt_rec [of 0] upt_rec [of 1]
      upt_rec [of 2] upt_rec [of 3] upt_rec [of 4] upt_rec [of 5] upt_rec [of 6] upt_rec [of 7])

lemma notebook_columns:
  "X1 = column [0, 1, 2, - 1, 1, - 3, 0]" "W1 = column (rev (map snd g_dict))"
  "W1 = column [1, 0, - 1]"
  by (simp_all add: X1_def W1_def column_def g_dict_def)

lemma cell18: "convolve X1 W1 = Inr \<lparr>shape = [5, 1], data = [- 2, 2, 1, 2, 1]\<rparr>"
  by code_simp

lemma cell16_18:
  "fancy X1 [ix] = Inr \<lparr>shape = [5, 3, 1],
                        data = [0, 1, 2, 1, 2, - 1, 2, - 1, 1, - 1, 1, - 3, 1, - 3, 0]\<rparr>"
  "np_dot (squeeze \<lparr>shape = [5, 3, 1],
                    data = [0, 1, 2, 1, 2, - 1, 2, - 1, 1, - 1, 1, - 3, 1, - 3, 0]\<rparr>) W1
   = Inr \<lparr>shape = [5, 1], data = [- 2, 2, 1, 2, 1 :: int]\<rparr>"
  by code_simp+

lemma cell4: "map (cnv f_dict g_dict) [0, 1, 2, 3, 4] = [Inr (- 2), Inr 2, Inr 1, Inr 2, Inr 1]"
  by code_simp

text \<open>
  On arrays of \<open>int64\<close> every element of the product is the sum of products of the
  integer values, reduced to 64 bits; it is that sum itself when the sum is a value of
  \<open>int64\<close>.
\<close>

lemma sint_int64: "int64_ok r \<Longrightarrow> sint (word_of_int r :: int64) = r"
  by (simp add: int64_ok_def sint_sbintrunc' signed_take_bit_int_eq_self)

lemma sum_list_word_of_int:
  "(\<Sum>j\<leftarrow>js. (word_of_int (f j) :: 'a::len word) * word_of_int (g j))
   = word_of_int (\<Sum>j\<leftarrow>js. f j * g j)"
  by (induction js) simp_all

lemma int64_convolve_column:
  assumes kn: "length ws \<le> length xs"
  shows "convolve (as_int64 (column xs)) (as_int64 (column ws))
         = Inr \<lparr>shape = [length xs - length ws + 1, 1],
                data = map (\<lambda>p. word_of_int (\<Sum>j\<leftarrow>[0..<length ws]. xs ! (p + j) * ws ! j))
                         [0..<length xs - length ws + 1]\<rparr>"
proof -
  let ?n = "length xs" and ?k = "length ws"
  let ?X = "as_int64 (column xs)" and ?W = "as_int64 (column ws)"
  have "convolve ?X ?W
        = Inr \<lparr>shape = [?n - ?k + 1, 1],
               data = map (\<lambda>p. \<Sum>j\<leftarrow>[0..<?k]. data ?X ! (p + j) * data ?W ! j) [0..<?n - ?k + 1]\<rparr>"
    by (rule convolve_column) (use kn in \<open>simp_all add: as_int64_def column_eq wf_array_def\<close>)
  moreover have "(\<Sum>j\<leftarrow>[0..<?k]. data ?X ! (p + j) * data ?W ! j)
        = word_of_int (\<Sum>j\<leftarrow>[0..<?k]. xs ! (p + j) * ws ! j)" if p: "p < ?n - ?k + 1" for p
  proof -
    have "map (\<lambda>j. data ?X ! (p + j) * data ?W ! j) [0..<?k]
          = map (\<lambda>j. (word_of_int (xs ! (p + j)) :: int64) * word_of_int (ws ! j)) [0..<?k]"
      using p kn by (intro map_cong) (auto simp: as_int64_def column_eq)
    then have "(\<Sum>j\<leftarrow>[0..<?k]. data ?X ! (p + j) * data ?W ! j)
          = (\<Sum>j\<leftarrow>[0..<?k]. (word_of_int (xs ! (p + j)) :: int64) * word_of_int (ws ! j))"
      by (rule arg_cong)
    then show ?thesis by (simp only: sum_list_word_of_int)
  qed
  ultimately show ?thesis by (simp del: upt_Suc cong: map_cong)
qed

lemma int64_cross_correlation_cnv:
  assumes g: "length gs = 2 * M + 1" and p: "p + length gs \<le> length xs"
  shows "\<exists>Z r. convolve (as_int64 (column xs)) (as_int64 (column (rev gs))) = Inr Z
           \<and> cnv (dict_from (- int M) xs) (dict_from (- int M) gs) (int p) = Inr r
           \<and> data Z ! p = word_of_int r
           \<and> (int64_ok r \<longrightarrow> sint (data Z ! p) = r)"
proof -
  let ?n = "length xs" and ?k = "length gs"
  let ?r = "\<Sum>j\<leftarrow>[0..<?k]. xs ! (p + j) * rev gs ! j"
  let ?Z = "\<lparr>shape = [?n - ?k + 1, 1],
              data = map (\<lambda>p. word_of_int (\<Sum>j\<leftarrow>[0..<?k]. xs ! (p + j) * rev gs ! j) :: int64)
                       [0..<?n - ?k + 1]\<rparr>"
  have Z: "convolve (as_int64 (column xs)) (as_int64 (column (rev gs))) = Inr ?Z"
    using int64_convolve_column [of "rev gs" xs] p by simp
  have "p < ?n - ?k + 1" using p by simp
  then have d: "data ?Z ! p = word_of_int ?r" by (simp del: upt_Suc)
  have c: "cnv (dict_from (- int M) xs) (dict_from (- int M) gs) (int p) = Inr ?r"
    using g p by (rule cnv_dict)
  have "int64_ok ?r \<longrightarrow> sint (data ?Z ! p) = ?r"
    unfolding d by (simp add: sint_int64)
  with Z c d show ?thesis by blast
qed

lemma int64_ok_nth: "list_all int64_ok xs \<Longrightarrow> i < length xs \<Longrightarrow> int64_ok (xs ! i)"
  by (simp add: list_all_length)

lemma int64_ok_unit: "list_all int64_ok ((replicate k 0)[j := 1])"
  by (auto simp: list_all_iff int64_ok_def dest!: set_update_subset_insert [THEN subsetD])

lemma int64_cell18:
  "convolve (as_int64 X1) (as_int64 W1) = Inr (as_int64 \<lparr>shape = [5, 1], data = [- 2, 2, 1, 2, 1]\<rparr>)"
  by code_simp

text \<open>
  Claim C9, amended. The matrix product computes a cross-correlation, not the flipped
  convolution: with one spatial axis and one channel, row \<open>p\<close> of the product of the
  unfolded matrix with the filter \<open>W\<close> is the sum over \<open>j\<close> from \<open>0\<close> to \<open>k - 1\<close> of
  \<open>X[p + j] * W[j]\<close>, in the arithmetic of the elements (which wraps around at 64 bits
  for numpy's \<open>int64\<close>). For \<open>g\<close> and a column filter \<open>W\<close> of \<open>int64\<close> values, the product
  on \<open>int64\<close> arrays equals the double sum \<open>cnv\<close> of \<open>f\<close> and \<open>g\<close>, for every input \<open>f\<close> of
  \<open>int64\<close> values and at every valid position where the double sum of Python's
  unbounded integers is itself a value of \<open>int64\<close>, exactly when \<open>W\<close> is the reversal of
  \<open>g\<close>; the notebook's \<open>W = [1, 0, -1]\<close> is the reversal of its \<open>g = [-1, 0, 1]\<close>. The
  dictionaries of \<open>cnv\<close> carry the input padded by \<open>M\<close> places, with the keys \<open>-M, ...\<close>,
  and the filter of length \<open>2M + 1\<close> with the keys \<open>-M, ..., M\<close>.
\<close>

theorem matmul_is_cross_correlation:
  "(shape X = [n, 1] \<and> wf_array X \<and> shape W = [k, 1] \<and> wf_array W \<and> k \<le> n \<longrightarrow>
      (\<exists>Z. convolve X W = Inr Z \<and> shape Z = [n - k + 1, 1]
         \<and> (\<forall>p < n - k + 1. data Z ! p = (\<Sum>j\<leftarrow>[0..<k]. data X ! (p + j) * data W ! j))))
   \<and> (list_all int64_ok gs \<and> list_all int64_ok ws \<and> length gs = 2 * M + 1
        \<and> length ws = length gs \<longrightarrow>
        ((\<forall>xs p. list_all int64_ok xs \<and> p + length gs \<le> length xs \<longrightarrow>
            (\<exists>Z r. convolve (as_int64 (column xs)) (as_int64 (column ws)) = Inr Z
               \<and> cnv (dict_from (- int M) xs) (dict_from (- int M) gs) (int p) = Inr r
               \<and> (int64_ok r \<longrightarrow> sint (data Z ! p) = r)))
         \<longleftrightarrow> ws = rev gs))
   \<and> W1 = column (rev (map snd g_dict))"
proof (intro conjI impI)
  assume a: "shape X = [n, 1] \<and> wf_array X \<and> shape W = [k, 1] \<and> wf_array W \<and> k \<le> n"
  then have "convolve X W
        = Inr \<lparr>shape = [n - k + 1, 1],
               data = map (\<lambda>p. \<Sum>j\<leftarrow>[0..<k]. data X ! (p + j) * data W ! j) [0..<n - k + 1]\<rparr>"
    by (intro convolve_column) simp_all
  then show "\<exists>Z. convolve X W = Inr Z \<and> shape Z = [n - k + 1, 1]
         \<and> (\<forall>p < n - k + 1. data Z ! p = (\<Sum>j\<leftarrow>[0..<k]. data X ! (p + j) * data W ! j))"
    by (simp del: upt_Suc)
next
  assume a: "list_all int64_ok gs \<and> list_all int64_ok ws \<and> length gs = 2 * M + 1
        \<and> length ws = length gs"
  then have g: "length gs = 2 * M + 1" and w: "length ws = length gs"
    and gok: "list_all int64_ok gs" and wok: "list_all int64_ok ws" by simp_all
  let ?agree = "\<forall>xs p. list_all int64_ok xs \<and> p + length gs \<le> length xs \<longrightarrow>
            (\<exists>Z r. convolve (as_int64 (column xs)) (as_int64 (column ws)) = Inr Z
               \<and> cnv (dict_from (- int M) xs) (dict_from (- int M) gs) (int p) = Inr r
               \<and> (int64_ok r \<longrightarrow> sint (data Z ! p) = r))"
  show "?agree \<longleftrightarrow> ws = rev gs"
  proof
    assume "ws = rev gs"
    then show ?agree using int64_cross_correlation_cnv [OF g] by blast
  next
    assume agree: ?agree
    show "ws = rev gs"
    proof (rule nth_equalityI)
      show "length ws = length (rev gs)" using w by simp
    next
      fix j assume j: "j < length ws"
      let ?k = "length gs"
      let ?e = "(replicate ?k (0::int))[j := 1]"
      have le: "0 + ?k \<le> length ?e" by simp
      from agree int64_ok_unit [of ?k j] le
      obtain Z r where Z: "convolve (as_int64 (column ?e)) (as_int64 (column ws)) = Inr Z"
        and c: "cnv (dict_from (- int M) ?e) (dict_from (- int M) gs) (int 0) = Inr r"
        and s: "int64_ok r \<longrightarrow> sint (data Z ! 0) = r"
        by blast
      have "convolve (as_int64 (column ?e)) (as_int64 (column ws))
            = Inr \<lparr>shape = [length ?e - length ws + 1, 1],
                   data = map (\<lambda>p. word_of_int (\<Sum>i\<leftarrow>[0..<length ws]. ?e ! (p + i) * ws ! i))
                            [0..<length ?e - length ws + 1]\<rparr>"
        by (rule int64_convolve_column) (use w in simp)
      with Z have "data Z ! 0 = word_of_int (\<Sum>i\<leftarrow>[0..<?k]. ?e ! i * ws ! i)"
        using w by auto
      also have "(\<Sum>i\<leftarrow>[0..<?k]. ?e ! i * ws ! i) = ws ! j"
        using j w by (intro sum_list_unit) simp
      finally have 1: "data Z ! 0 = word_of_int (ws ! j)" .
      have "cnv (dict_from (- int M) ?e) (dict_from (- int M) gs) (int 0)
            = Inr (\<Sum>i\<leftarrow>[0..<?k]. ?e ! (0 + i) * rev gs ! i)"
        using g le by (rule cnv_dict)
      also have "(\<Sum>i\<leftarrow>[0..<?k]. ?e ! (0 + i) * rev gs ! i) = rev gs ! j"
        using j w sum_list_unit [of j ?k "rev gs"] by simp
      finally have 2: "r = rev gs ! j" using c by simp
      have "int64_ok (rev gs ! j)"
        using gok j w by (intro int64_ok_nth) simp_all
      with s 2 have "sint (data Z ! 0) = rev gs ! j" by simp
      moreover have "sint (word_of_int (ws ! j) :: int64) = ws ! j"
        using wok j by (intro sint_int64 int64_ok_nth)
      ultimately show "ws ! j = rev gs ! j" using 1 by simp
    qed
  qed
next
  show "W1 = column (rev (map snd g_dict))" by (rule notebook_columns(2))
qed

theorem matmul_is_cross_correlation_witness:
  "shape X1 = [7, 1] \<and> wf_array X1 \<and> shape W1 = [3, 1] \<and> wf_array W1 \<and> (3::nat) \<le> 7
   \<and> (\<exists>Z. convolve X1 W1 = Inr Z \<and> shape Z = [5, 1]
         \<and> data Z ! 2 = (\<Sum>j\<leftarrow>[0..<3]. data X1 ! (2 + j) * data W1 ! j))
   \<and> list_all int64_ok [- 1, 0, 1] \<and> list_all int64_ok [1, 0, - 1]
   \<and> length [- 1, 0, 1 :: int] = 2 * 1 + 1 \<and> length [1, 0, - 1 :: int] = length [- 1, 0, 1 :: int]
   \<and> [1, 0, - 1] = rev [- 1, 0, 1 :: int]
   \<and> list_all int64_ok [0, 1, 2, - 1, 1, - 3, 0]
   \<and> (\<exists>Z r. convolve (as_int64 (column [0, 1, 2, - 1, 1, - 3, 0])) (as_int64 (column [1, 0, - 1])) = Inr Z
         \<and> cnv (dict_from (- 1) [0, 1, 2, - 1, 1, - 3, 0]) (dict_from (- 1) [- 1, 0, 1]) 2 = Inr r
         \<and> int64_ok r \<and> sint (data Z ! 2) = r)"
proof -
  note t = matmul_is_cross_correlation
    [where X = X1 and W = W1 and n = 7 and k = 3
       and gs = "[- 1, 0, 1]" and M = 1 and ws = "[1, 0, - 1]"]
  have h: "shape X1 = [7, 1]" "wf_array X1" "shape W1 = [3, 1]" "wf_array W1"
    by (simp_all add: notebook_columns(1) W1_def column_eq column_def np_transpose_def array2_def
        wf_array_def)
  have ok: "list_all int64_ok [- 1, 0, 1]" "list_all int64_ok [1, 0, - 1]"
    "list_all int64_ok [0, 1, 2, - 1, 1, - 3, 0]"
    by (simp_all add: int64_ok_def)
  from t h obtain Z where Z: "convolve X1 W1 = Inr Z" "shape Z = [5, 1]"
    "\<forall>p < 7 - 3 + 1. data Z ! p = (\<Sum>j\<leftarrow>[0..<3]. data X1 ! (p + j) * data W1 ! j)"
    by auto
  from Z(3) have 1: "data Z ! 2 = (\<Sum>j\<leftarrow>[0..<3]. data X1 ! (2 + j) * data W1 ! j)"
    by simp
  from t ok have "\<forall>xs p. list_all int64_ok xs \<and> p + length [- 1, 0, 1 :: int] \<le> length xs \<longrightarrow>
            (\<exists>Z r. convolve (as_int64 (column xs)) (as_int64 (column [1, 0, - 1])) = Inr Z
               \<and> cnv (dict_from (- int 1) xs) (dict_from (- int 1) [- 1, 0, 1]) (int p) = Inr r
               \<and> (int64_ok r \<longrightarrow> sint (data Z ! p) = r))"
    by simp
  then have "list_all int64_ok [0, 1, 2, - 1, 1, - 3, 0]
         \<and> 2 + length [- 1, 0, 1 :: int] \<le> length [0, 1, 2, - 1, 1, - 3, 0 :: int] \<longrightarrow>
            (\<exists>Z r. convolve (as_int64 (column [0, 1, 2, - 1, 1, - 3, 0])) (as_int64 (column [1, 0, - 1])) = Inr Z
               \<and> cnv (dict_from (- int 1) [0, 1, 2, - 1, 1, - 3, 0]) (dict_from (- int 1) [- 1, 0, 1]) (int 2) = Inr r
               \<and> (int64_ok r \<longrightarrow> sint (data Z ! 2) = r))"
    by blast
  with ok obtain Z' r where Z': "convolve (as_int64 (column [0, 1, 2, - 1, 1, - 3, 0])) (as_int64 (column [1, 0, - 1])) = Inr Z'"
    "cnv (dict_from (- 1) [0, 1, 2, - 1, 1, - 3, 0]) (dict_from (- 1) [- 1, 0, 1]) 2 = Inr r"
    "int64_ok r \<longrightarrow> sint (data Z' ! 2) = r"
    by auto
  have "cnv (dict_from (- 1) [0, 1, 2, - 1, 1, - 3, 0]) (dict_from (- 1) [- 1, 0, 1]) 2 = Inr 1"
    by code_simp
  with Z'(2) have r: "r = 1" by simp
  then have rok: "int64_ok r" by (simp add: int64_ok_def)
  with Z' have 2: "\<exists>Z r. convolve (as_int64 (column [0, 1, 2, - 1, 1, - 3, 0])) (as_int64 (column [1, 0, - 1])) = Inr Z
         \<and> cnv (dict_from (- 1) [0, 1, 2, - 1, 1, - 3, 0]) (dict_from (- 1) [- 1, 0, 1]) 2 = Inr r
         \<and> int64_ok r \<and> sint (data Z ! 2) = r"
    by blast
  show ?thesis using h Z(1,2) 1 2 ok by simp
qed

text \<open>
  Without the bound on the double sum the two differ also for the reversed filter: for
  the padded input \<open>[0, 2^62, 2^62]\<close> and \<open>g = [1, 1, 0]\<close>, the product with
  \<open>W = [0, 1, 1]\<close>, the reversal of \<open>g\<close>, is \<open>-2^63\<close> in \<open>int64\<close>, and the double sum is
  \<open>2^63\<close>.
\<close>

theorem matmul_overflow_counterexample:
  "length [1, 1, 0 :: int] = 2 * 1 + 1 \<and> [0, 1, 1] = rev [1, 1, 0 :: int]
   \<and> convolve (as_int64 (column [0, 2 ^ 62, 2 ^ 62])) (as_int64 (column [0, 1, 1]))
       = Inr \<lparr>shape = [1, 1], data = [- (2 ^ 63)]\<rparr>
   \<and> sint (- (2 ^ 63) :: int64) = - (2 ^ 63)
   \<and> cnv (dict_from (- 1) [0, 2 ^ 62, 2 ^ 62]) (dict_from (- 1) [1, 1, 0]) 0 = Inr (2 ^ 63)
   \<and> (- (2 ^ 63) :: int) \<noteq> 2 ^ 63"
proof -
  have "convolve (as_int64 (column [0, 2 ^ 62, 2 ^ 62])) (as_int64 (column [0, 1, 1]))
       = Inr \<lparr>shape = [1, 1], data = [- (2 ^ 63)]\<rparr>"
    by code_simp
  moreover have "cnv (dict_from (- 1) [0, 2 ^ 62, 2 ^ 62]) (dict_from (- 1) [1, 1, 0]) 0 = Inr (2 ^ 63)"
    by code_simp
  ultimately show ?thesis by simp
qed

text \<open>
  Claim C1, amended. For every padded one-dimensional input and every filter \<open>g\<close> of odd
  length, both of \<open>int64\<close> values, the pipeline applied to the input and the
  \<^emph>\<open>reversed\<close> filter gives at every valid position the double sum \<open>cnv\<close> reduced to 64
  bits, which is the double sum itself wherever its value is a value of \<open>int64\<close>; for
  \<open>f = [1, 2, -1, 1, -3]\<close> padded with a zero at both ends and \<open>g = [-1, 0, 1]\<close>, the
  notebook multiplies by \<open>W = [1, 0, -1]\<close>, the reversal of \<open>g\<close>, and both ways give
  \<open>[-2, 2, 1, 2, 1]\<close>.
\<close>

theorem convolve_reversed_filter_is_cnv:
  "(length gs = 2 * M + 1 \<and> p + length gs \<le> length xs
      \<and> list_all int64_ok xs \<and> list_all int64_ok gs \<longrightarrow>
      (\<exists>Z r. convolve (as_int64 (column xs)) (as_int64 (column (rev gs))) = Inr Z
         \<and> cnv (dict_from (- int M) xs) (dict_from (- int M) gs) (int p) = Inr r
         \<and> data Z ! p = word_of_int r
         \<and> (int64_ok r \<longrightarrow> sint (data Z ! p) = r)))
   \<and> f_dict = dict_from (- 1) [0, 1, 2, - 1, 1, - 3, 0] \<and> g_dict = dict_from (- 1) [- 1, 0, 1]
   \<and> X1 = column [0, 1, 2, - 1, 1, - 3, 0] \<and> W1 = column (rev [- 1, 0, 1])
   \<and> convolve (as_int64 X1) (as_int64 W1)
       = Inr (as_int64 \<lparr>shape = [5, 1], data = [- 2, 2, 1, 2, 1]\<rparr>)
   \<and> map (cnv f_dict g_dict) [0, 1, 2, 3, 4] = map Inr [- 2, 2, 1, 2, 1]"
  using int64_cross_correlation_cnv [of gs M p xs] notebook_dicts notebook_columns(1,3)
    int64_cell18 cell4
  by simp

theorem convolve_reversed_filter_is_cnv_witness:
  "length [- 1, 0, 1 :: int] = 2 * 1 + 1
   \<and> 4 + length [- 1, 0, 1 :: int] \<le> length [0, 1, 2, - 1, 1, - 3, 0 :: int]
   \<and> list_all int64_ok [0, 1, 2, - 1, 1, - 3, 0] \<and> list_all int64_ok [- 1, 0, 1]
   \<and> (\<exists>Z r. convolve (as_int64 (column [0, 1, 2, - 1, 1, - 3, 0])) (as_int64 (column (rev [- 1, 0, 1]))) = Inr Z
         \<and> cnv (dict_from (- 1) [0, 1, 2, - 1, 1, - 3, 0]) (dict_from (- 1) [- 1, 0, 1]) 4 = Inr r
         \<and> data Z ! 4 = word_of_int r)"
proof -
  have ok: "list_all int64_ok [0, 1, 2, - 1, 1, - 3, 0]" "list_all int64_ok [- 1, 0, 1]"
    by (simp_all add: int64_ok_def)
  from convolve_reversed_filter_is_cnv
    [where gs = "[- 1, 0, 1]" and M = 1 and p = 4 and xs = "[0, 1, 2, - 1, 1, - 3, 0]"] ok
  have "\<exists>Z r. convolve (as_int64 (column [0, 1, 2, - 1, 1, - 3, 0])) (as_int64 (column (rev [- 1, 0, 1]))) = Inr Z
         \<and> cnv (dict_from (- 1) [0, 1, 2, - 1, 1, - 3, 0]) (dict_from (- 1) [- 1, 0, 1]) 4 = Inr r
         \<and> data Z ! 4 = word_of_int r"
    by auto
  then show ?thesis using ok by simp
qed

text \<open>
  With the filter \<open>g = [-1, 0, 1]\<close> itself, not reversed, the pipeline gives
  \<open>[2, -2, -1, -2, -1]\<close> on the notebook's input, and the double sum gives
  \<open>[-2, 2, 1, 2, 1]\<close>. And with the reversed filter the two differ where the double sum
  leaves \<open>int64\<close>: for the padded input \<open>[2^62, 2^62, 0]\<close> and \<open>g = [0, 1, 1]\<close> the
  pipeline gives \<open>-2^63\<close> and the double sum \<open>2^63\<close>.
\<close>

theorem convolve_unreversed_filter_counterexample:
  "convolve (as_int64 X1) (as_int64 (column (map snd g_dict)))
     = Inr (as_int64 \<lparr>shape = [5, 1], data = [2, - 2, - 1, - 2, - 1]\<rparr>)
   \<and> map (cnv f_dict g_dict) [0, 1, 2, 3, 4] = map Inr [- 2, 2, 1, 2, 1]
   \<and> [2, - 2, - 1, - 2, - 1] \<noteq> [- 2, 2, 1, 2, 1 :: int]
   \<and> convolve (as_int64 (column [2 ^ 62, 2 ^ 62, 0])) (as_int64 (column (rev [0, 1, 1])))
       = Inr \<lparr>shape = [1, 1], data = [- (2 ^ 63)]\<rparr>
   \<and> sint (- (2 ^ 63) :: int64) = - (2 ^ 63)
   \<and> cnv (dict_from (- 1) [2 ^ 62, 2 ^ 62, 0]) (dict_from (- 1) [0, 1, 1]) 0 = Inr (2 ^ 63)
   \<and> (- (2 ^ 63) :: int) \<noteq> 2 ^ 63"
proof -
  have "convolve (as_int64 X1) (as_int64 (column (map snd g_dict)))
        = Inr (as_int64 \<lparr>shape = [5, 1], data = [2, - 2, - 1, - 2, - 1]\<rparr>)"
    by code_simp
  moreover have "convolve (as_int64 (column [2 ^ 62, 2 ^ 62, 0])) (as_int64 (column (rev [0, 1, 1])))
       = Inr \<lparr>shape = [1, 1], data = [- (2 ^ 63)]\<rparr>"
    by code_simp
  moreover have "cnv (dict_from (- 1) [2 ^ 62, 2 ^ 62, 0]) (dict_from (- 1) [0, 1, 1]) 0 = Inr (2 ^ 63)"
    by code_simp
  ultimately show ?thesis using cell4 by simp
qed

section \<open>The examples of the notebook\<close>

lemma cell27: "convolve X2 W2 = Inr \<lparr>shape = [5, 1], data = [- 5, 1, 3, 1, 0]\<rparr>"
  by code_simp

lemma cell25_27:
  "reshape W2 [6, 1] = Inr \<lparr>shape = [6, 1], data = [1, - 1, 0, 0, - 1, 1]\<rparr>"
  "fancy X2 [ps_ix, ft_ix]
     = Inr \<lparr>shape = [5, 6],
           data = [0, 1, 1, 3, 2, - 2, 1, 3, 2, - 2, - 1, 2, 2, - 2, - 1, 2, 1, 0,
                   - 1, 2, 1, 0, - 3, 1, 1, 0, - 3, 1, 0, - 1]\<rparr>"
  "np_dot \<lparr>shape = [5, 6],
           data = [0, 1, 1, 3, 2, - 2, 1, 3, 2, - 2, - 1, 2, 2, - 2, - 1, 2, 1, 0,
                   - 1, 2, 1, 0, - 3, 1, 1, 0, - 3, 1, 0, - 1]\<rparr>
          \<lparr>shape = [6, 1], data = [1, - 1, 0, 0, - 1, 1 :: int]\<rparr>
     = Inr \<lparr>shape = [5, 1], data = [- 5, 1, 3, 1, 0]\<rparr>"
  by code_simp+

lemma notebook_shapes:
  "shape X1 = [7, 1]" "shape W1 = [3, 1]" "shape X2 = [7, 2]" "shape W2 = [3, 2]"
  "shape X3 = [5, 5]" "shape W3 = [3, 3]" "shape X4 = [5, 5, 2]" "shape W4 = [3, 3, 2]"
  "shape W5 = [18, 2]"
  "wf_array X1" "wf_array W1" "wf_array X2" "wf_array W2" "wf_array X3" "wf_array W3"
  "wf_array X4" "wf_array W4" "wf_array W5"
  by code_simp+

lemma run_cell18: "Z_cell18 = Inr \<lparr>shape = [5, 1], data = [- 2, 2, 1, 2, 1]\<rparr>"
  by code_simp

lemma run_cell27: "out_cell27 = Inr \<lparr>shape = [5, 1], data = [- 5, 1, 3, 1, 0]\<rparr>"
  by code_simp

text \<open>The pipeline on the arrays of each example is the run of its cells.\<close>

lemma convolve_cell18: "convolve X1 W1 = Z_cell18"
  by code_simp

lemma convolve_cell27: "convolve X2 W2 = out_cell27"
  by code_simp


lemma cell46: "out_cell46 = Inr (array2 [[19, 3, - 4], [17, - 13, 1], [3, - 12, - 6]])"
  by code_simp



lemma convolve_cell46: "convolve X4 W4 = out_cell46"
  by code_simp


section \<open>Consistency of the gather\<close>

lemma those_Some_nth:
  "those xs = Some ys \<Longrightarrow> length ys = length xs \<and> (\<forall>i < length xs. xs ! i = Some (ys ! i))"
proof (induction xs arbitrary: ys)
  case Nil
  then show ?case by simp
next
  case (Cons x xs)
  then obtain y zs where x: "x = Some y" and zs: "those xs = Some zs" and ys: "ys = y # zs"
    by (auto split: option.splits)
  from Cons.IH [OF zs] show ?case
    by (auto simp: x ys nth_Cons split: nat.splits)
qed

lemma ravel_index_bound:
  "ravel_index acc sh idx = Some off \<Longrightarrow> off < Suc acc * prod_list sh"
proof (induction acc sh idx rule: ravel_index.induct)
  case (1 acc)
  then show ?case by simp
next
  case (2 acc n ns i "is")
  then obtain j where j: "np_index n i = Some j" and r: "ravel_index (acc * n + j) ns is = Some off"
    by (auto split: option.splits)
  from j have "j < n" by (auto simp: np_index_def split: if_splits)
  then have "Suc (acc * n + j) \<le> Suc acc * n" by (simp add: Suc_le_eq)
  then have le: "Suc (acc * n + j) * prod_list ns \<le> (Suc acc * n) * prod_list ns"
    by (rule mult_le_mono1)
  from "2.IH" [OF j r] have "off < Suc (acc * n + j) * prod_list ns" .
  also note le
  finally show ?case by (simp only: prod_list.Cons mult.assoc)
qed simp_all

lemma fancy_full_data:
  assumes ok: "fancy X idxs = Inr Xhat" and len: "length idxs = length (shape X)"
    and wf: "wf_array X"
  shows "shape Xhat = shape (hd idxs)"
    and "s < prod_list (shape (hd idxs)) \<Longrightarrow>
           \<exists>off. ravel_index 0 (shape X) (map (\<lambda>I. data I ! s) idxs) = Some off
              \<and> off < length (data X) \<and> data Xhat ! s = data X ! off"
proof -
  let ?S = "shape (hd idxs)"
  let ?g = "\<lambda>s. ravel_index 0 (shape X) (map (\<lambda>I. data I ! s) idxs)"
  from ok have ne: "idxs \<noteq> []" and same: "\<not> list_ex (\<lambda>I. shape I \<noteq> ?S) idxs"
    by (auto simp: fancy_def split: if_splits)
  from ok ne same len obtain os where os: "those (map ?g [0..<prod_list ?S]) = Some os"
    by (auto simp: fancy_def Let_def split: if_splits option.splits)
  from those_Some_nth [OF os] have g: "?g s = Some (os ! s)" if "s < prod_list ?S" for s
    using that by simp
  have bd: "os ! s < length (data X)" if "s < prod_list ?S" for s
    using ravel_index_bound [OF g [OF that]] wf by (simp add: wf_array_def)
  have "fancy X idxs = Inr \<lparr>shape = ?S, data = map (\<lambda>s. data X ! (os ! s)) [0..<prod_list ?S]\<rparr>"
    using ne len _ g bd by (rule fancy_full) (use same in \<open>simp add: list_ex_iff\<close>)
  with ok have X: "Xhat = \<lparr>shape = ?S, data = map (\<lambda>s. data X ! (os ! s)) [0..<prod_list ?S]\<rparr>"
    by simp
  show "shape Xhat = ?S" by (simp add: X)
  show "\<exists>off. ?g s = Some off \<and> off < length (data X) \<and> data Xhat ! s = data X ! off"
    if "s < prod_list ?S"
    using g [OF that] bd [OF that] that by (simp add: X)
qed

lemma flat_position:
  assumes "p < P" and "c < K"
  shows "p * K + c < prod_list [P, K :: nat]"
proof -
  have "p * K + c < Suc p * K" using assms by simp
  also have "\<dots> \<le> P * K" using assms by (intro mult_le_mono1) simp
  finally show ?thesis by simp
qed

text \<open>
  Claim C8. Two entries of the unfolded matrix, in rows \<open>p\<^sub>1\<close> and \<open>p\<^sub>2\<close> of overlapping
  windows, whose index tuples name the same input coordinate hold the same value: the
  gather copies an input element consistently into every window that contains it.
  This holds for the gather by any index arrays that cover all axes of the input, among
  them those of \<open>build_window_indices\<close> and the tables of the notebook.
\<close>

theorem gather_consistent:
  assumes ok: "fancy X idxs = Inr Xhat" and len: "length idxs = length (shape X)"
    and wf: "wf_array X" and S: "shape (hd idxs) = [P, K]"
    and all: "list_all (\<lambda>I. shape I = [P, K]) idxs"
    and p1: "p1 < P" and c1: "c1 < K" and p2: "p2 < P" and c2: "c2 < K"
    and same: "map (\<lambda>I. item I [p1, c1]) idxs = map (\<lambda>I. item I [p2, c2]) idxs"
  shows "item Xhat [p1, c1] = item Xhat [p2, c2]"
proof -
  have sh: "shape Xhat = [P, K]"
    using fancy_full_data(1) [OF ok len wf] S by simp
  have tup: "map (\<lambda>I. data I ! (p * K + c)) idxs = map (\<lambda>I. item I [p, c]) idxs" for p c
    using all by (intro map_cong) (auto simp: item_def list_all_iff)
  from fancy_full_data(2) [OF ok len wf, of "p1 * K + c1"] flat_position [OF p1 c1] S
  obtain o1 where o1: "ravel_index 0 (shape X) (map (\<lambda>I. data I ! (p1 * K + c1)) idxs) = Some o1"
    "data Xhat ! (p1 * K + c1) = data X ! o1" by auto
  from fancy_full_data(2) [OF ok len wf, of "p2 * K + c2"] flat_position [OF p2 c2] S
  obtain o2 where o2: "ravel_index 0 (shape X) (map (\<lambda>I. data I ! (p2 * K + c2)) idxs) = Some o2"
    "data Xhat ! (p2 * K + c2) = data X ! o2" by auto
  from o1(1) o2(1) same have "o1 = o2" by (simp add: tup)
  with o1(2) o2(2) show ?thesis by (simp add: item_def sh)
qed

theorem gather_consistent_witness:
  "fancy X2 [ps_ix, ft_ix]
     = Inr \<lparr>shape = [5, 6],
           data = [0, 1, 1, 3, 2, - 2, 1, 3, 2, - 2, - 1, 2, 2, - 2, - 1, 2, 1, 0,
                   - 1, 2, 1, 0, - 3, 1, 1, 0, - 3, 1, 0, - 1]\<rparr>
   \<and> length [ps_ix, ft_ix] = length (shape X2) \<and> wf_array X2 \<and> shape (hd [ps_ix, ft_ix]) = [5, 6]
   \<and> list_all (\<lambda>I. shape I = [5, 6]) [ps_ix, ft_ix]
   \<and> map (\<lambda>I. item I [0, 2]) [ps_ix, ft_ix] = map (\<lambda>I. item I [1, 0]) [ps_ix, ft_ix]
   \<and> item \<lparr>shape = [5, 6],
           data = [0, 1, 1, 3, 2, - 2, 1, 3, 2, - 2, - 1, 2, 2, - 2, - 1, 2, 1, 0,
                   - 1, 2, 1, 0, - 3, 1, 1, 0, - 3, 1, 0, - 1 :: int]\<rparr> [0, 2]
     = item \<lparr>shape = [5, 6],
           data = [0, 1, 1, 3, 2, - 2, 1, 3, 2, - 2, - 1, 2, 2, - 2, - 1, 2, 1, 0,
                   - 1, 2, 1, 0, - 3, 1, 1, 0, - 3, 1, 0, - 1 :: int]\<rparr> [1, 0]"
proof -
  let ?Xhat = "\<lparr>shape = [5, 6],
           data = [0, 1, 1, 3, 2, - 2, 1, 3, 2, - 2, - 1, 2, 2, - 2, - 1, 2, 1, 0,
                   - 1, 2, 1, 0, - 3, 1, 1, 0, - 3, 1, 0, - 1 :: int]\<rparr>"
  have ok: "fancy X2 [ps_ix, ft_ix] = Inr ?Xhat" by code_simp
  have len: "length [ps_ix, ft_ix] = length (shape X2)" by code_simp
  have wf: "wf_array X2" by code_simp
  have S: "shape (hd [ps_ix, ft_ix]) = [5, 6]" by code_simp
  have all: "list_all (\<lambda>I. shape I = [5, 6]) [ps_ix, ft_ix]" by code_simp
  have same: "map (\<lambda>I. item I [0, 2]) [ps_ix, ft_ix] = map (\<lambda>I. item I [1, 0]) [ps_ix, ft_ix]"
    by code_simp
  have "item ?Xhat [0, 2] = item ?Xhat [1, 0]"
    using ok len wf S all _ _ _ _ same by (rule gather_consistent) simp_all
  with ok len wf S all same show ?thesis by simp
qed

section \<open>The shape of the output\<close>

lemma convolve_shape_rank1:
  fixes X W :: "'a::comm_semiring_0 ndarray"
  assumes "shape X = [n, d]" "wf_array X" "k \<le> n" "wf_array W"
    and "shape W = [k, d] \<and> nf = 1 \<or> shape W = [k, d, nf]"
  shows "\<exists>out. convolve X W = Inr out \<and> shape out = [n - k + 1, nf]"
proof -
  from assms(5) obtain oax where oax: "shape W = [k] @ [d] @ oax" "oax = [] \<and> nf = 1 \<or> oax = [nf]"
    by auto
  have "convolve X W
        = Inr \<lparr>shape = (if length [n] = 1 then [prod_list (positions [n] [k]), nf]
                        else positions [n] [k] @ oax),
               data = map (\<lambda>i. window_sum X [n] [k] d W nf (i div nf) (i mod nf))
                        [0..<prod_list (positions [n] [k]) * nf]\<rparr>"
    by (rule convolve_valid [OF _ assms(2) _ _ oax assms(4)]) (use assms in simp_all)
  then show ?thesis using assms(3) by (simp add: positions_def Suc_diff_le)
qed

lemma convolve_shape_rank2:
  fixes X W :: "'a::comm_semiring_0 ndarray"
  assumes "shape X = [nh, nw, d]" "wf_array X" "kh \<le> nh" "kw \<le> nw" "wf_array W"
    and "shape W = [kh, kw, d] \<and> oax = [] \<or> shape W = [kh, kw, d, nf] \<and> oax = [nf]"
  shows "\<exists>out. convolve X W = Inr out \<and> shape out = [nh - kh + 1, nw - kw + 1] @ oax"
proof -
  define nf' where "nf' = (if oax = [] then 1 else nf)"
  from assms(6) have oax: "shape W = [kh, kw] @ [d] @ oax" "oax = [] \<and> nf' = 1 \<or> oax = [nf']"
    by (auto simp: nf'_def)
  have "convolve X W
        = Inr \<lparr>shape = (if length [nh, nw] = 1 then [prod_list (positions [nh, nw] [kh, kw]), nf']
                        else positions [nh, nw] [kh, kw] @ oax),
               data = map (\<lambda>i. window_sum X [nh, nw] [kh, kw] d W nf' (i div nf') (i mod nf'))
                        [0..<prod_list (positions [nh, nw] [kh, kw]) * nf']\<rparr>"
    by (rule convolve_valid [OF _ assms(2) _ _ oax assms(5)]) (use assms in simp_all)
  then show ?thesis using assms(3,4) by (simp add: positions_def Suc_diff_le)
qed

text \<open>
  Claim C4, amended. For a valid input and filter (\<open>k\<^sub>i \<le> n\<^sub>i\<close>) with two spatial axes the
  output has the shape \<open>(n\<^sub>h - k\<^sub>h + 1, n\<^sub>w - k\<^sub>w + 1)\<close>, followed by an axis of length \<open>o\<close>
  exactly when the filter has the output-filter axis of length \<open>o\<close>. With one spatial
  axis the output is the matrix product as it stands, of shape \<open>(n\<^sub>h - k\<^sub>h + 1, o)\<close>,
  where \<open>o = 1\<close> for a filter without an output-filter axis.
\<close>

theorem convolve_output_shape:
  "(shape X = [n, d] \<and> wf_array X \<and> k \<le> n \<and> wf_array W
      \<and> (shape W = [k, d] \<and> nf = 1 \<or> shape W = [k, d, nf]) \<longrightarrow>
      (\<exists>out. convolve X W = Inr out \<and> shape out = [n - k + 1, nf]))
   \<and> (shape X' = [nh, nw, d'] \<and> wf_array X' \<and> kh \<le> nh \<and> kw \<le> nw \<and> wf_array W'
      \<and> (shape W' = [kh, kw, d'] \<and> oax = [] \<or> shape W' = [kh, kw, d', nf'] \<and> oax = [nf']) \<longrightarrow>
      (\<exists>out. convolve X' W' = Inr out \<and> shape out = [nh - kh + 1, nw - kw + 1] @ oax
          \<and> shape out = shape_law [nh, nw] [kh, kw] oax))"
  using convolve_shape_rank1 [of X n d k W nf]
    convolve_shape_rank2 [of X' nh nw d' kh kw W' oax nf']
  by (auto simp: shape_law_def)

theorem convolve_output_shape_witness:
  "shape X2 = [7, 2] \<and> wf_array X2 \<and> (3::nat) \<le> 7 \<and> wf_array W2 \<and> shape W2 = [3, 2]
   \<and> (\<exists>out. convolve X2 W2 = Inr out \<and> shape out = [7 - 3 + 1, 1])
   \<and> shape X4 = [5, 5, 2] \<and> wf_array X4 \<and> (3::nat) \<le> 5 \<and> wf_array W4 \<and> shape W4 = [3, 3, 2]
   \<and> (\<exists>out. convolve X4 W4 = Inr out \<and> shape out = [5 - 3 + 1, 5 - 3 + 1] @ []
          \<and> shape out = shape_law [5, 5] [3, 3] [])"
  using convolve_output_shape [where X = X2 and n = 7 and d = 2 and k = 3 and W = W2 and nf = 1
      and X' = X4 and nh = 5 and nw = 5 and d' = 2 and kh = 3 and kw = 3 and W' = W4
      and oax = "[]" and nf' = 1] notebook_shapes
  by simp

text \<open>
  The second example of the notebook: the input is \<open>7 \<times> 2\<close>, the filter \<open>3 \<times> 2\<close> has no
  output-filter axis, and \<open>out.shape\<close> is \<open>(5, 1)\<close>, not \<open>(5)\<close>.
\<close>

theorem convolve_output_shape_counterexample:
  "shape X2 = [7, 2] \<and> shape W2 = [3, 2]
   \<and> convolve X2 W2 = Inr \<lparr>shape = [5, 1], data = [- 5, 1, 3, 1, 0]\<rparr>
   \<and> shape_law [7] [3] [] = [5]
   \<and> [5, 1] \<noteq> shape_law [7] [3] []"
  using cell27 notebook_shapes by (simp add: shape_law_def)

section \<open>Invalid shapes\<close>







section \<open>Several filters at once\<close>








section \<open>Aggregation over the channels\<close>

lemma ravel_snoc:
  "length idx = length sh \<Longrightarrow> ravel (sh @ [d]) (idx @ [c]) = ravel sh idx * d + c"
proof (induction sh idx rule: ravel.induct)
  case (1 n ns i "is")
  then show ?case by (simp add: algebra_simps)
qed simp_all

lemma sum_list_channels:
  fixes f :: "nat \<Rightarrow> 'a::comm_monoid_add"
  shows "(\<Sum>c\<leftarrow>[0..<m * d]. f c) = (\<Sum>ch\<leftarrow>[0..<d]. \<Sum>q\<leftarrow>[0..<m]. f (q * d + ch))"
proof -
  have "(\<Sum>c\<leftarrow>[0..<m * d]. f c) = sum f {..<m * d}"
    by (simp add: interv_sum_list_conv_sum_set_nat atLeast0LessThan)
  also have "\<dots> = (\<Sum>q<m. sum f {q * d..<q * d + d})"
    by (rule sum.nat_group [symmetric])
  also have "\<dots> = (\<Sum>q<m. \<Sum>ch<d. f (q * d + ch))"
  proof (rule sum.cong [OF refl])
    fix q
    have "sum f {0 + q * d..<d + q * d} = (\<Sum>ch = 0..<d. f (ch + q * d))"
      by (rule sum.shift_bounds_nat_ivl)
    then show "sum f {q * d..<q * d + d} = (\<Sum>ch<d. f (q * d + ch))"
      by (simp add: add.commute atLeast0LessThan)
  qed
  also have "\<dots> = (\<Sum>ch<d. \<Sum>q<m. f (q * d + ch))"
    by (rule sum.swap)
  also have "\<dots> = (\<Sum>ch\<leftarrow>[0..<d]. \<Sum>q\<leftarrow>[0..<m]. f (q * d + ch))"
    by (simp add: interv_sum_list_conv_sum_set_nat atLeast0LessThan)
  finally show ?thesis .
qed

lemma take_channel_shape:
  "shape X = ns @ [d] \<Longrightarrow> shape (take_channel X ch) = ns @ [1]"
  "shape X = ns @ [d] \<Longrightarrow> wf_array (take_channel X ch)"
  "shape X = ns @ [d] \<Longrightarrow> i < prod_list ns \<Longrightarrow> data (take_channel X ch) ! i = data X ! (i * d + ch)"
  by (simp_all add: take_channel_def wf_array_def)

lemma window_coord_spatial_less:
  assumes len: "length ks = length ns" and le: "list_all2 (\<le>) ks ns"
    and p: "p < prod_list (positions ns ks)" and q: "q < prod_list ks"
  shows "list_all2 (<) (map2 (+) (unravel (positions ns ks) p) (unravel ks q)) ns"
proof -
  have "list_all2 (<) (window_coord ns ks 1 p q) (ns @ [1])"
    using len le p by (rule window_coord_less) (use q in simp)
  moreover have "length (map2 (+) (unravel (positions ns ks) p) (unravel ks q)) = length ns"
    using len by (simp add: positions_def)
  ultimately show ?thesis
    by (simp add: window_coord_def list_all2_append)
qed

lemma window_sum_channel:
  fixes X W :: "'a::comm_semiring_0 ndarray"
  assumes X: "shape X = ns @ [d]" and W: "shape W = ks @ [d]"
    and len: "length ks = length ns" and le: "list_all2 (\<le>) ks ns"
    and p: "p < prod_list (positions ns ks)" and ch: "ch < d"
  shows "window_sum (take_channel X ch) ns ks 1 (take_channel W ch) 1 p 0
         = (\<Sum>q\<leftarrow>[0..<prod_list ks]. item X (window_coord ns ks d p (q * d + ch))
                                        * data W ! (q * d + ch))"
proof -
  have "item (take_channel X ch) (window_coord ns ks 1 p q) * data (take_channel W ch) ! q
        = item X (window_coord ns ks d p (q * d + ch)) * data W ! (q * d + ch)"
    if q: "q < prod_list ks" for q
  proof -
    let ?A = "map2 (+) (unravel (positions ns ks) p) (unravel ks q)"
    have A: "list_all2 (<) ?A ns" using len le p q by (rule window_coord_spatial_less)
    then have lenA: "length ?A = length ns" by (rule list_all2_lengthD)
    have r: "ravel ns ?A < prod_list ns" using A by (rule ravel_less)
    have 1: "window_coord ns ks 1 p q = ?A @ [0]" by (simp add: window_coord_def)
    have 2: "window_coord ns ks d p (q * d + ch) = ?A @ [ch]"
      using ch by (simp add: window_coord_def)
    have "item (take_channel X ch) (?A @ [0]) = data (take_channel X ch) ! ravel ns ?A"
      using lenA by (simp add: item_def take_channel_shape(1) [OF X] ravel_snoc)
    also have "\<dots> = data X ! (ravel ns ?A * d + ch)"
      using X r by (rule take_channel_shape(3))
    also have "\<dots> = item X (?A @ [ch])"
      using lenA by (simp add: item_def X ravel_snoc)
    finally have "item (take_channel X ch) (window_coord ns ks 1 p q)
                  = item X (window_coord ns ks d p (q * d + ch))"
      by (simp only: 1 2)
    moreover have "data (take_channel W ch) ! q = data W ! (q * d + ch)"
      using W q by (rule take_channel_shape(3))
    ultimately show ?thesis by simp
  qed
  then have "map (\<lambda>q. item (take_channel X ch) (window_coord ns ks 1 p q)
                       * data (take_channel W ch) ! (q * 1 + 0)) [0..<prod_list ks * 1]
             = map (\<lambda>q. item X (window_coord ns ks d p (q * d + ch)) * data W ! (q * d + ch))
                 [0..<prod_list ks]"
    by (intro map_cong) auto
  then show ?thesis unfolding window_sum_def by (rule arg_cong)
qed

lemma convolve_channel:
  fixes X W :: "'a::comm_semiring_0 ndarray"
  assumes X: "shape X = ns @ [d]" and wfX: "wf_array X" and W: "shape W = ks @ [d]"
    and len: "length ks = length ns" and le: "list_all2 (\<le>) ks ns" and ch: "ch < d"
  shows "convolve (take_channel X ch) (take_channel W ch)
         = Inr \<lparr>shape = (if length ns = 1 then [prod_list (positions ns ks), 1] else positions ns ks),
                data = map (\<lambda>p. \<Sum>q\<leftarrow>[0..<prod_list ks].
                                   item X (window_coord ns ks d p (q * d + ch)) * data W ! (q * d + ch))
                         [0..<prod_list (positions ns ks)]\<rparr>"
proof -
  have "convolve (take_channel X ch) (take_channel W ch)
        = Inr \<lparr>shape = (if length ns = 1 then [prod_list (positions ns ks), 1]
                        else positions ns ks @ []),
               data = map (\<lambda>i. window_sum (take_channel X ch) ns ks 1 (take_channel W ch) 1
                                  (i div 1) (i mod 1))
                        [0..<prod_list (positions ns ks) * 1]\<rparr>"
    by (rule convolve_valid [OF take_channel_shape(1) [OF X] take_channel_shape(2) [OF X] len le _ _
          take_channel_shape(2) [OF W]])
      (simp_all add: take_channel_shape(1) [OF W])
  moreover have "map (\<lambda>p. window_sum (take_channel X ch) ns ks 1 (take_channel W ch) 1 p 0)
                   [0..<prod_list (positions ns ks)]
                 = map (\<lambda>p. \<Sum>q\<leftarrow>[0..<prod_list ks].
                                   item X (window_coord ns ks d p (q * d + ch)) * data W ! (q * d + ch))
                     [0..<prod_list (positions ns ks)]"
    using window_sum_channel [OF X W len le _ ch] by (intro map_cong) auto
  ultimately show ?thesis by simp
qed

lemma convolve_single:
  fixes X W :: "'a::comm_semiring_0 ndarray"
  assumes X: "shape X = ns @ [d]" and wfX: "wf_array X" and W: "shape W = ks @ [d]"
    and wfW: "wf_array W" and len: "length ks = length ns" and le: "list_all2 (\<le>) ks ns"
  shows "convolve X W
         = Inr \<lparr>shape = (if length ns = 1 then [prod_list (positions ns ks), 1] else positions ns ks),
                data = map (\<lambda>p. \<Sum>ch\<leftarrow>[0..<d]. \<Sum>q\<leftarrow>[0..<prod_list ks].
                                   item X (window_coord ns ks d p (q * d + ch)) * data W ! (q * d + ch))
                         [0..<prod_list (positions ns ks)]\<rparr>"
proof -
  have "convolve X W
        = Inr \<lparr>shape = (if length ns = 1 then [prod_list (positions ns ks), 1]
                        else positions ns ks @ []),
               data = map (\<lambda>i. window_sum X ns ks d W 1 (i div 1) (i mod 1))
                        [0..<prod_list (positions ns ks) * 1]\<rparr>"
    by (rule convolve_valid [OF X wfX len le _ _ wfW]) (simp_all add: W)
  moreover have "window_sum X ns ks d W 1 p 0
        = (\<Sum>ch\<leftarrow>[0..<d]. \<Sum>q\<leftarrow>[0..<prod_list ks].
              item X (window_coord ns ks d p (q * d + ch)) * data W ! (q * d + ch))" for p
    unfolding window_sum_def
    using sum_list_channels [of "\<lambda>c. item X (window_coord ns ks d p c) * data W ! c" "prod_list ks" d]
    by simp
  ultimately show ?thesis by simp
qed

lemma sum_list_single:
  fixes g :: "nat \<Rightarrow> 'a::comm_monoid_add"
  assumes "c0 < d" and "\<And>ch. ch < d \<Longrightarrow> ch \<noteq> c0 \<Longrightarrow> g ch = 0"
  shows "(\<Sum>ch\<leftarrow>[0..<d]. g ch) = g c0"
proof -
  have "(\<Sum>ch\<leftarrow>[0..<d]. g ch) = (\<Sum>ch \<in> {0..<d}. if ch = c0 then g c0 else 0)"
    unfolding interv_sum_list_conv_sum_set_nat
    using assms(2) by (intro sum.cong) auto
  also have "\<dots> = g c0" using assms(1) by simp
  finally show ?thesis .
qed

lemma filter_item:
  assumes W: "shape W = ks @ [d]" and q: "q < prod_list ks"
  shows "item W (unravel ks q @ [ch]) = data W ! (q * d + ch)"
proof -
  have "ravel (ks @ [d]) (unravel ks q @ [ch]) = ravel ks (unravel ks q) * d + ch"
    by (rule ravel_snoc) simp
  then show ?thesis using q by (simp add: item_def W ravel_unravel)
qed

lemma window_coord_channel:
  "ch < d \<Longrightarrow> window_coord ns ks d p (q * d + ch)
     = map2 (+) (unravel (positions ns ks) p) (unravel ks q) @ [ch]"
  by (simp add: window_coord_def)

lemma window_products:
  assumes W: "shape W = ks @ [d]" and ch: "ch < d"
  shows "(\<Sum>q\<leftarrow>[0..<prod_list ks]. item X (window_coord ns ks d p (q * d + ch)) * data W ! (q * d + ch))
         = (\<Sum>q\<leftarrow>[0..<prod_list ks].
              item X (map2 (+) (unravel (positions ns ks) p) (unravel ks q) @ [ch])
              * item W (unravel ks q @ [ch]))"
  by (intro arg_cong [where f = sum_list] map_cong refl)
    (simp add: filter_item [OF W] window_coord_channel [OF ch])

text \<open>
  Claim C6. The output for an input with \<open>d\<close> channels is, at every position \<open>p\<close>, the
  sum over the channels \<open>ch\<close> and the window offsets \<open>q\<close> of the input element at the
  anchor of \<open>p\<close> plus \<open>q\<close> in channel \<open>ch\<close>, times the filter element at \<open>q\<close> in channel
  \<open>ch\<close>. The inner sum is the output of the one-channel convolution of channel \<open>ch\<close> of
  the input with channel \<open>ch\<close> of the filter, so that the output is the sum over the
  channels of the one-channel convolutions; and for a filter that is zero on every
  channel but \<open>c\<^sub>0\<close> it is the one-channel convolution of channel \<open>c\<^sub>0\<close> alone.
\<close>

theorem channels_aggregated:
  fixes X W :: "'a::comm_semiring_0 ndarray"
  shows "shape X = ns @ [d] \<and> wf_array X \<and> shape W = ks @ [d] \<and> wf_array W
     \<and> length ks = length ns \<and> list_all2 (\<le>) ks ns \<longrightarrow>
     (\<exists>out. convolve X W = Inr out
        \<and> length (data out) = prod_list (positions ns ks)
        \<and> (\<forall>p < prod_list (positions ns ks).
              data out ! p
              = (\<Sum>ch\<leftarrow>[0..<d]. \<Sum>q\<leftarrow>[0..<prod_list ks].
                   item X (map2 (+) (unravel (positions ns ks) p) (unravel ks q) @ [ch])
                   * item W (unravel ks q @ [ch])))
        \<and> (\<forall>ch < d. \<exists>oc. convolve (take_channel X ch) (take_channel W ch) = Inr oc
              \<and> shape oc = shape out
              \<and> (\<forall>p < prod_list (positions ns ks).
                    data oc ! p
                    = (\<Sum>q\<leftarrow>[0..<prod_list ks].
                         item X (map2 (+) (unravel (positions ns ks) p) (unravel ks q) @ [ch])
                         * item W (unravel ks q @ [ch]))))
        \<and> (\<forall>p < prod_list (positions ns ks).
              data out ! p = (\<Sum>ch\<leftarrow>[0..<d]. conv_data (take_channel X ch) (take_channel W ch) ! p))
        \<and> (\<forall>c0 < d. (\<forall>i < length (data W). i mod d \<noteq> c0 \<longrightarrow> data W ! i = 0) \<longrightarrow>
              convolve (take_channel X c0) (take_channel W c0) = Inr out))"
proof
  assume a: "shape X = ns @ [d] \<and> wf_array X \<and> shape W = ks @ [d] \<and> wf_array W
     \<and> length ks = length ns \<and> list_all2 (\<le>) ks ns"
  then have X: "shape X = ns @ [d]" and wfX: "wf_array X" and W: "shape W = ks @ [d]"
    and wfW: "wf_array W" and len: "length ks = length ns" and le: "list_all2 (\<le>) ks ns"
    by simp_all
  let ?P = "prod_list (positions ns ks)"
  let ?sh = "if length ns = 1 then [?P, 1] else positions ns ks"
  let ?g = "\<lambda>ch p. \<Sum>q\<leftarrow>[0..<prod_list ks].
               item X (window_coord ns ks d p (q * d + ch)) * data W ! (q * d + ch)"
  let ?e = "\<lambda>ch p. \<Sum>q\<leftarrow>[0..<prod_list ks].
               item X (map2 (+) (unravel (positions ns ks) p) (unravel ks q) @ [ch])
               * item W (unravel ks q @ [ch])"
  let ?out = "\<lparr>shape = ?sh, data = map (\<lambda>p. \<Sum>ch\<leftarrow>[0..<d]. ?g ch p) [0..<?P]\<rparr>"
  have ge: "?g ch p = ?e ch p" if "ch < d" for ch p
    using W that by (rule window_products)
  have out: "convolve X W = Inr ?out"
    using X wfX W wfW len le by (rule convolve_single)
  have chan: "convolve (take_channel X ch) (take_channel W ch)
              = Inr \<lparr>shape = ?sh, data = map (?g ch) [0..<?P]\<rparr>" if "ch < d" for ch
    using X wfX W len le that by (rule convolve_channel)
  have 1: "length (data ?out) = ?P" by simp
  have 2: "\<forall>p < ?P. data ?out ! p = (\<Sum>ch\<leftarrow>[0..<d]. ?e ch p)"
  proof (intro allI impI)
    fix p assume p: "p < ?P"
    have "map (\<lambda>ch. ?g ch p) [0..<d] = map (\<lambda>ch. ?e ch p) [0..<d]"
      using ge by (intro map_cong) auto
    then have "(\<Sum>ch\<leftarrow>[0..<d]. ?g ch p) = (\<Sum>ch\<leftarrow>[0..<d]. ?e ch p)"
      by (rule arg_cong)
    then show "data ?out ! p = (\<Sum>ch\<leftarrow>[0..<d]. ?e ch p)" using p by simp
  qed
  have 3: "\<forall>ch < d. \<exists>oc. convolve (take_channel X ch) (take_channel W ch) = Inr oc
              \<and> shape oc = shape ?out \<and> (\<forall>p < ?P. data oc ! p = ?e ch p)"
    using chan ge by simp
  have 4: "\<forall>p < ?P. data ?out ! p
             = (\<Sum>ch\<leftarrow>[0..<d]. conv_data (take_channel X ch) (take_channel W ch) ! p)"
  proof (intro allI impI)
    fix p assume p: "p < ?P"
    have "map (\<lambda>ch. conv_data (take_channel X ch) (take_channel W ch) ! p) [0..<d]
          = map (\<lambda>ch. ?g ch p) [0..<d]"
      using p by (intro map_cong) (auto simp: conv_data_def chan)
    then have "(\<Sum>ch\<leftarrow>[0..<d]. conv_data (take_channel X ch) (take_channel W ch) ! p)
               = (\<Sum>ch\<leftarrow>[0..<d]. ?g ch p)"
      by (rule arg_cong)
    then show "data ?out ! p
             = (\<Sum>ch\<leftarrow>[0..<d]. conv_data (take_channel X ch) (take_channel W ch) ! p)"
      using p by simp
  qed
  have 5: "\<forall>c0 < d. (\<forall>i < length (data W). i mod d \<noteq> c0 \<longrightarrow> data W ! i = 0) \<longrightarrow>
              convolve (take_channel X c0) (take_channel W c0) = Inr ?out"
  proof (intro allI impI)
    fix c0 assume c0: "c0 < d"
      and zero: "\<forall>i < length (data W). i mod d \<noteq> c0 \<longrightarrow> data W ! i = 0"
    have size: "length (data W) = prod_list ks * d"
      using wfW W by (simp add: wf_array_def)
    have z: "?g ch p = 0" if ch: "ch < d" "ch \<noteq> c0" for ch p
    proof -
      have "data W ! (q * d + ch) = 0" if q: "q < prod_list ks" for q
      proof -
        have "q * d + ch < Suc q * d" using ch by simp
        also have "\<dots> \<le> prod_list ks * d" using q by (intro mult_le_mono1) simp
        finally have "q * d + ch < length (data W)" by (simp add: size)
        moreover have "(q * d + ch) mod d \<noteq> c0" using ch by simp
        ultimately show ?thesis using zero by blast
      qed
      then have "map (\<lambda>q. item X (window_coord ns ks d p (q * d + ch)) * data W ! (q * d + ch))
                   [0..<prod_list ks] = map (\<lambda>q. 0) [0..<prod_list ks]"
        by (intro map_cong) auto
      then have "?g ch p = (\<Sum>q\<leftarrow>[0..<prod_list ks]. 0)" by (rule arg_cong)
      then show ?thesis by simp
    qed
    have "(\<Sum>ch\<leftarrow>[0..<d]. ?g ch p) = ?g c0 p" for p
      using c0 z by (intro sum_list_single [where g = "\<lambda>ch. ?g ch p"]) auto
    then show "convolve (take_channel X c0) (take_channel W c0) = Inr ?out"
      using chan [OF c0] by simp
  qed
  from out 1 2 3 4 5
  show "\<exists>out. convolve X W = Inr out
        \<and> length (data out) = prod_list (positions ns ks)
        \<and> (\<forall>p < prod_list (positions ns ks).
              data out ! p
              = (\<Sum>ch\<leftarrow>[0..<d]. \<Sum>q\<leftarrow>[0..<prod_list ks].
                   item X (map2 (+) (unravel (positions ns ks) p) (unravel ks q) @ [ch])
                   * item W (unravel ks q @ [ch])))
        \<and> (\<forall>ch < d. \<exists>oc. convolve (take_channel X ch) (take_channel W ch) = Inr oc
              \<and> shape oc = shape out
              \<and> (\<forall>p < prod_list (positions ns ks).
                    data oc ! p
                    = (\<Sum>q\<leftarrow>[0..<prod_list ks].
                         item X (map2 (+) (unravel (positions ns ks) p) (unravel ks q) @ [ch])
                         * item W (unravel ks q @ [ch]))))
        \<and> (\<forall>p < prod_list (positions ns ks).
              data out ! p = (\<Sum>ch\<leftarrow>[0..<d]. conv_data (take_channel X ch) (take_channel W ch) ! p))
        \<and> (\<forall>c0 < d. (\<forall>i < length (data W). i mod d \<noteq> c0 \<longrightarrow> data W ! i = 0) \<longrightarrow>
              convolve (take_channel X c0) (take_channel W c0) = Inr out)"
    by blast
qed

theorem channels_aggregated_witness:
  "shape X2 = [7] @ [2] \<and> wf_array X2 \<and> shape W2 = [3] @ [2] \<and> wf_array W2
   \<and> length [3 :: nat] = length [7 :: nat] \<and> list_all2 (\<le>) [3 :: nat] [7]
   \<and> (\<exists>out oc0 oc1. convolve X2 W2 = Inr out
         \<and> convolve (take_channel X2 0) (take_channel W2 0) = Inr oc0
         \<and> convolve (take_channel X2 1) (take_channel W2 1) = Inr oc1
         \<and> data oc0 ! 0 = - 2 \<and> data oc1 ! 0 = - 3 \<and> data out ! 0 = - 5
         \<and> data out ! 0 = data oc0 ! 0 + data oc1 ! 0)
   \<and> shape (array2 [[1, 0], [0, 0], [- 1, 0 :: int]]) = [3] @ [2]
   \<and> wf_array (array2 [[1, 0], [0, 0], [- 1, 0 :: int]])
   \<and> (\<exists>out. convolve X2 (array2 [[1, 0], [0, 0], [- 1, 0]]) = Inr out
         \<and> convolve (take_channel X2 0) (take_channel (array2 [[1, 0], [0, 0], [- 1, 0]]) 0) = Inr out
         \<and> data out ! 0 = - 2)"
proof -
  let ?W = "array2 [[1, 0], [0, 0], [- 1, 0 :: int]]"
  let ?e = "\<lambda>W ch p. \<Sum>q\<leftarrow>[0..<prod_list [3]].
               item X2 (map2 (+) (unravel (positions [7] [3]) p) (unravel [3] q) @ [ch])
               * item W (unravel [3] q @ [ch])"
  have h: "shape X2 = [7] @ [2]" "wf_array X2" "shape W2 = [3] @ [2]" "wf_array W2"
    "shape ?W = [3] @ [2]" "wf_array ?W"
    "length [3 :: nat] = length [7 :: nat]" "list_all2 (\<le>) [3 :: nat] [7]"
    by code_simp+
  have P: "prod_list (positions [7] [3]) = 5" by (simp add: positions_def)
  have v: "?e W2 0 0 = - 2" "?e W2 1 0 = - 3" "(\<Sum>ch\<leftarrow>[0..<2]. ?e W2 ch 0) = - 5"
    "(\<Sum>ch\<leftarrow>[0..<2]. ?e ?W ch 0) = - 2"
    by code_simp+
  from channels_aggregated [where X = X2 and W = W2 and ns = "[7]" and ks = "[3]" and d = 2] h
  obtain out where o: "convolve X2 W2 = Inr out"
    "\<forall>p < prod_list (positions [7] [3]). data out ! p = (\<Sum>ch\<leftarrow>[0..<2]. ?e W2 ch p)"
    "\<forall>ch < 2. \<exists>oc. convolve (take_channel X2 ch) (take_channel W2 ch) = Inr oc
         \<and> shape oc = shape out
         \<and> (\<forall>p < prod_list (positions [7] [3]). data oc ! p = ?e W2 ch p)"
    by blast
  from o(3) [rule_format, of 0] obtain oc0 where c0: "convolve (take_channel X2 0) (take_channel W2 0) = Inr oc0"
    "\<forall>p < prod_list (positions [7] [3]). data oc0 ! p = ?e W2 0 p" by auto
  from o(3) [rule_format, of 1] obtain oc1 where c1: "convolve (take_channel X2 1) (take_channel W2 1) = Inr oc1"
    "\<forall>p < prod_list (positions [7] [3]). data oc1 ! p = ?e W2 1 p" by auto
  have 1: "data out ! 0 = - 5" "data oc0 ! 0 = - 2" "data oc1 ! 0 = - 3"
    using o(2) c0(2) c1(2) P v by simp_all
  have z: "\<forall>i < length (data ?W). i mod 2 \<noteq> 0 \<longrightarrow> data ?W ! i = 0"
  proof (intro allI impI)
    fix i assume "i < length (data ?W)" and odd: "i mod 2 \<noteq> 0"
    then have "i = 0 \<or> i = 1 \<or> i = 2 \<or> i = 3 \<or> i = 4 \<or> i = 5"
      by (simp add: array2_def) linarith
    with odd show "data ?W ! i = 0" by (auto simp: array2_def)
  qed
  from channels_aggregated [where X = X2 and W = ?W and ns = "[7]" and ks = "[3]" and d = 2] h
  obtain out' where o': "convolve X2 ?W = Inr out'"
    "\<forall>p < prod_list (positions [7] [3]). data out' ! p = (\<Sum>ch\<leftarrow>[0..<2]. ?e ?W ch p)"
    "\<forall>c0 < 2. (\<forall>i < length (data ?W). i mod 2 \<noteq> c0 \<longrightarrow> data ?W ! i = 0) \<longrightarrow>
        convolve (take_channel X2 c0) (take_channel ?W c0) = Inr out'"
    by blast
  from o'(3) z have 2: "convolve (take_channel X2 0) (take_channel ?W 0) = Inr out'" by simp
  have 3: "data out' ! 0 = - 2" using o'(2) P v by simp
  have A: "\<exists>out oc0 oc1. convolve X2 W2 = Inr out
         \<and> convolve (take_channel X2 0) (take_channel W2 0) = Inr oc0
         \<and> convolve (take_channel X2 1) (take_channel W2 1) = Inr oc1
         \<and> data oc0 ! 0 = - 2 \<and> data oc1 ! 0 = - 3 \<and> data out ! 0 = - 5
         \<and> data out ! 0 = data oc0 ! 0 + data oc1 ! 0"
    using o(1) c0(1) c1(1) 1 by auto
  have B: "\<exists>out. convolve X2 ?W = Inr out
         \<and> convolve (take_channel X2 0) (take_channel ?W 0) = Inr out
         \<and> data out ! 0 = - 2"
    using o'(1) 2 3 by blast
  show ?thesis using h A B by blast
qed

section \<open>The order of the flattened filter\<close>




end
